theory Spec2Isabelle
  imports Main
begin

section \<open>The chat client's job lifecycle (script.js)\<close>

text \<open>
  The repository holds two revisions of the same browser script: \<^verbatim>\<open>src/script.js\<close> and
  \<^verbatim>\<open>src/unnamed/part_000\<close>. They differ in three places only: the file-extension
  check of \<^verbatim>\<open>handleFileSelection\<close> (present in part_000 only, together with
  \<^verbatim>\<open>reader.onerror\<close>), the nested 3-second timer of the download handler
  (part_000 only) and the rendering of the backend's answer (plain text in script.js,
  \<^verbatim>\<open>createFormattedMessage\<close> in part_000). The model takes the revision as a parameter.

  The script runs on the browser's event loop. One turn of the loop (a DOM event handler,
  a timer callback, or the resumption of an \<^verbatim>\<open>async\<close> function whose awaited
  \<^verbatim>\<open>fetch\<close> has settled) is one \<open>step\<close> of the model. Times are milliseconds.
\<close>

datatype version = Script_js | Part_000

subsection \<open>Strings\<close>

text \<open>
  A \<open>char\<close> stands for one code unit of a JavaScript string in the Latin-1 range.
  \<^verbatim>\<open>String.prototype.trim\<close> strips white space and line terminators from both ends.
\<close>

definition is_space :: "char \<Rightarrow> bool" where
  "is_space c = ((of_char c :: nat) \<in> {9, 10, 11, 12, 13, 32, 160})"

definition trim :: "string \<Rightarrow> string" where
  "trim s = rev (dropWhile is_space (rev (dropWhile is_space s)))"

definition lower_char :: "char \<Rightarrow> char" where
  "lower_char c =
     (let n = (of_char c :: nat)
      in if (65 \<le> n \<and> n \<le> 90) \<or> (192 \<le> n \<and> n \<le> 222 \<and> n \<noteq> 215)
         then char_of (n + 32) else c)"

definition toLowerCase :: "string \<Rightarrow> string" where
  "toLowerCase s = map lower_char s"

text \<open>
  \<^verbatim>\<open>name.lastIndexOf('.')\<close> is \<open>-1\<close> when the name has no dot, and
  \<^verbatim>\<open>substring(-1)\<close> is the whole string.
\<close>

fun lastIndexOf :: "string \<Rightarrow> char \<Rightarrow> int" where
  "lastIndexOf [] c = -1"
| "lastIndexOf (x # xs) c =
     (let r = lastIndexOf xs c
      in if r \<ge> 0 then r + 1 else if x = c then 0 else -1)"

definition substring :: "string \<Rightarrow> int \<Rightarrow> string" where
  "substring s i = drop (nat (max 0 i)) s"

text \<open>\<^verbatim>\<open>s.split(',')\<close>: the pieces between the commas, at least one piece.\<close>

fun split_on :: "char \<Rightarrow> string \<Rightarrow> string list" where
  "split_on c [] = [[]]"
| "split_on c (x # xs) =
     (if x = c then [] # split_on c xs
      else (case split_on c xs of
              [] \<Rightarrow> [[x]]
            | y # ys \<Rightarrow> (x # y) # ys))"

subsection \<open>Backend answers\<close>

text \<open>
  A settled \<^verbatim>\<open>fetch\<close> followed by \<^verbatim>\<open>response.json()\<close>: either the request
  is rejected (network failure), or there is an HTTP response with its \<^verbatim>\<open>ok\<close> flag
  and a body, \<open>None\<close> when the body does not parse to an object. A parsed object is an
  association list of its fields.
\<close>

datatype jvalue = JString string | JBool bool | JNumber int | JNull

type_synonym json = "(string \<times> jvalue) list"

datatype response = NetworkError | Http bool "json option"

definition truthy :: "jvalue option \<Rightarrow> bool" where
  "truthy x =
     (case x of
        None \<Rightarrow> False
      | Some JNull \<Rightarrow> False
      | Some (JBool b) \<Rightarrow> b
      | Some (JNumber n) \<Rightarrow> n \<noteq> 0
      | Some (JString t) \<Rightarrow> t \<noteq> [])"

definition status_is :: "json \<Rightarrow> string \<Rightarrow> bool" where
  "status_is statusData k = (map_of statusData ''status'' = Some (JString k))"

definition timestamp :: "json \<Rightarrow> jvalue option" where
  "timestamp statusData = map_of statusData ''timestamp''"

datatype endpoint =
    CheckStatus
  | GetOutput
  | ProcessPrompt "string option" "string option"

subsection \<open>The page\<close>

text \<open>
  The texts the script writes into \<^verbatim>\<open>processingStatusArea\<close>, into chat bubbles and
  into \<^verbatim>\<open>alert\<close> dialogs, one constructor per literal of the source; a constructor's
  argument is the value the template literal interpolates.
\<close>

datatype status_text =
    NoStatus
  | Preparing
  | CompletedAt "jvalue option"
  | FailedAt "jvalue option"
  | AgentWorking nat
  | Ready
  | BackendError
  | Downloading
  | Downloaded

datatype message =
    Welcome
  | UserText string
  | FileUpload string nat
  | RequestSent
  | Typing
  | AiText "jvalue option"
  | AiFormatted string
  | BackendFailure

datatype dialog =
    WaitProcessing
  | ProcessingFailed
  | WaitOutput
  | ConnectionError
  | BadFormat
  | TooLarge
  | ReadFailed

record file_obj =
  name :: string
  fsize :: nat

text \<open>
  What a timer runs when it fires, and where a suspended \<^verbatim>\<open>async\<close> function
  resumes when its request settles. The number is the index of the
  \<^verbatim>\<open>startProcessingFlow\<close> call whose closure the code belongs to.
\<close>

datatype callback = PollTick nat | Finalize nat | DownloadDone | ClearStatus

datatype continuation =
    PollStatus nat
  | SubmitPost nat
  | FinalStatus nat
  | DownloadStatus
  | DownloadProbe

datatype timer = Timer (tid: nat) (due: nat) (period: "nat option") (cb: callback)

text \<open>The variables one call of \<^verbatim>\<open>startProcessingFlow\<close> closes over.\<close>

record flow =
  userPrompt :: "string option"
  fileDataBase64 :: "string option"
  initialResponseElement :: nat
  typingIndicator :: nat
  processingDone :: bool
  checkStatusInterval :: nat
  submittedAt :: nat

text \<open>
  The state: the DOM nodes the script touches, the closures, the event loop (armed timers,
  requests in flight, file reads in progress, the clock) and what an observer of the page
  sees over time (requests sent, dialogs shown, navigations, promise rejections nobody
  handled, and the status the last post-finalize reconciliation read, forgotten when a
  submission starts or the chat is reset).
\<close>

record state =
  chatWindow :: "(nat \<times> message) list"
  welcomeDisplay :: bool
  chatInput :: string
  downloadOutputBtn :: bool
  processingStatusArea :: status_text
  flows :: "flow list"
  timers :: "timer list"
  pending :: "(nat \<times> continuation) list"
  readers :: "(nat \<times> file_obj) list"
  fresh :: nat
  now :: nat
  requests :: "(nat \<times> endpoint \<times> continuation) list"
  alerts :: "dialog list"
  navigations :: "nat list"
  unhandled :: nat
  lastReconciled :: "json option"

text \<open>
  The page as loaded. The markup is not part of the sources; the download button is taken
  to start hidden and the status area empty, which is how the new-chat handler leaves
  them. Node 0 is the welcome message.
\<close>

definition init :: state where
  "init = \<lparr> chatWindow = [(0, Welcome)], welcomeDisplay = True, chatInput = [],
            downloadOutputBtn = False, processingStatusArea = NoStatus, flows = [],
            timers = [], pending = [], readers = [], fresh = 1, now = 0, requests = [],
            alerts = [], navigations = [], unhandled = 0, lastReconciled = None \<rparr>"

subsection \<open>Browser primitives\<close>

definition createMessageElement :: "message \<Rightarrow> state \<Rightarrow> state" where
  "createMessageElement m s =
     s\<lparr> chatWindow := chatWindow s @ [(fresh s, m)], fresh := Suc (fresh s) \<rparr>"

definition removeChild :: "nat \<Rightarrow> state \<Rightarrow> state" where
  "removeChild e s = s\<lparr> chatWindow := filter (\<lambda>x. fst x \<noteq> e) (chatWindow s) \<rparr>"

definition setInterval :: "callback \<Rightarrow> nat \<Rightarrow> state \<Rightarrow> state" where
  "setInterval c d s =
     s\<lparr> timers := timers s @ [Timer (fresh s) (now s + d) (Some d) c],
        fresh := Suc (fresh s) \<rparr>"

definition setTimeout :: "callback \<Rightarrow> nat \<Rightarrow> state \<Rightarrow> state" where
  "setTimeout c d s =
     s\<lparr> timers := timers s @ [Timer (fresh s) (now s + d) None c],
        fresh := Suc (fresh s) \<rparr>"

definition clearInterval :: "nat \<Rightarrow> state \<Rightarrow> state" where
  "clearInterval i s = s\<lparr> timers := filter (\<lambda>t. tid t \<noteq> i) (timers s) \<rparr>"

definition fetch :: "endpoint \<Rightarrow> continuation \<Rightarrow> state \<Rightarrow> state" where
  "fetch ep k s =
     s\<lparr> pending := pending s @ [(fresh s, k)],
        requests := requests s @ [(now s, ep, k)],
        fresh := Suc (fresh s) \<rparr>"

definition alert :: "dialog \<Rightarrow> state \<Rightarrow> state" where
  "alert d s = s\<lparr> alerts := alerts s @ [d] \<rparr>"

subsection \<open>startProcessingFlow\<close>

text \<open>
  \<open>lastReconciled\<close> and \<open>submittedAt\<close> are history variables: the script has no
  such variables, and nothing it does depends on them.
\<close>

definition startProcessingFlow :: "string option \<Rightarrow> string option \<Rightarrow> state \<Rightarrow> state" where
  "startProcessingFlow prompt fileData s0 =
     (let s1 = s0\<lparr> downloadOutputBtn := False, processingStatusArea := Preparing,
                   lastReconciled := None \<rparr>;
          s2 = createMessageElement RequestSent s1;
          s3 = createMessageElement Typing s2;
          s4 = setInterval (PollTick (length (flows s0))) 2000 s3;
          s5 = setTimeout (Finalize (length (flows s0))) 5000 s4
      in s5\<lparr> flows := flows s0 @
                [\<lparr> userPrompt = prompt, fileDataBase64 = fileData,
                   initialResponseElement = fresh s1, typingIndicator = fresh s2,
                   processingDone = False, checkStatusInterval = fresh s3,
                   submittedAt = now s0 \<rparr>] \<rparr>)"

text \<open>The poll tick, up to its first \<^verbatim>\<open>await\<close>.\<close>

definition pollTick :: "nat \<Rightarrow> state \<Rightarrow> state" where
  "pollTick j s =
     (if j < length (flows s) then
        (if processingDone (flows s ! j)
         then clearInterval (checkStatusInterval (flows s ! j)) s
         else fetch CheckStatus (PollStatus j) s)
      else s)"

text \<open>The poll tick after \<^verbatim>\<open>check_status\<close> has settled: the status-text mapping.\<close>

definition pollStatusUpdate :: "json \<Rightarrow> state \<Rightarrow> state" where
  "pollStatusUpdate statusData s =
     (if status_is statusData ''completed''
      then s\<lparr> processingStatusArea := CompletedAt (timestamp statusData) \<rparr>
      else if status_is statusData ''failed''
      then s\<lparr> processingStatusArea := FailedAt (timestamp statusData) \<rparr>
      else if status_is statusData ''processing''
      then s\<lparr> processingStatusArea := AgentWorking (now s) \<rparr>
      else s\<lparr> processingStatusArea := Ready \<rparr>)"

definition pollResume :: "response \<Rightarrow> state \<Rightarrow> state" where
  "pollResume r s =
     (case r of
        Http ok (Some statusData) \<Rightarrow> pollStatusUpdate statusData s
      | _ \<Rightarrow> s\<lparr> processingStatusArea := BackendError \<rparr>)"

text \<open>\<^verbatim>\<open>simulateAIResponse\<close>: the POST, and what follows once it has settled.\<close>

definition simulateAIResponse :: "nat \<Rightarrow> state \<Rightarrow> state" where
  "simulateAIResponse j s =
     fetch (ProcessPrompt (userPrompt (flows s ! j)) (fileDataBase64 (flows s ! j)))
       (SubmitPost j) s"

definition simulateAIResponseResume :: "version \<Rightarrow> response \<Rightarrow> state \<Rightarrow> state" where
  "simulateAIResponseResume v r s =
     (case r of
        Http True (Some data) \<Rightarrow>
          (case v of
             Script_js \<Rightarrow> createMessageElement (AiText (map_of data ''ai_response_text'')) s
           | Part_000 \<Rightarrow>
               (case map_of data ''ai_response_text'' of
                  Some (JString t) \<Rightarrow> createMessageElement (AiFormatted t) s
                | _ \<Rightarrow> createMessageElement BackendFailure s))
      | _ \<Rightarrow> createMessageElement BackendFailure s)"

text \<open>The 5-second callback, up to its first \<^verbatim>\<open>await\<close>.\<close>

definition finalizeStart :: "nat \<Rightarrow> state \<Rightarrow> state" where
  "finalizeStart j s0 =
     (if j < length (flows s0) then
        (let f = flows s0 ! j;
             s1 = s0\<lparr> flows := (flows s0)[j := f\<lparr> processingDone := True \<rparr>] \<rparr>;
             s2 = clearInterval (checkStatusInterval f) s1;
             s3 = removeChild (initialResponseElement f) s2;
             s4 = removeChild (typingIndicator f) s3
         in simulateAIResponse j s4)
      else s0)"

text \<open>The post-finalize reconciliation, after the second \<^verbatim>\<open>check_status\<close> settled.\<close>

definition finalStatusUpdate :: "json \<Rightarrow> state \<Rightarrow> state" where
  "finalStatusUpdate statusData s =
     (if status_is statusData ''completed''
      then s\<lparr> downloadOutputBtn := True,
              processingStatusArea := CompletedAt (timestamp statusData) \<rparr>
      else if status_is statusData ''failed''
      then s\<lparr> processingStatusArea := FailedAt (timestamp statusData) \<rparr>
      else s)"

definition finalResume :: "response \<Rightarrow> state \<Rightarrow> state" where
  "finalResume r s =
     (case r of
        Http ok (Some statusData) \<Rightarrow>
          finalStatusUpdate statusData (s\<lparr> lastReconciled := Some statusData \<rparr>)
      | _ \<Rightarrow> s\<lparr> unhandled := Suc (unhandled s) \<rparr>)"

subsection \<open>The handlers\<close>

definition sendMessage :: "state \<Rightarrow> state" where
  "sendMessage s =
     (let messageText = trim (chatInput s)
      in if messageText = [] then s
         else startProcessingFlow (Some messageText) None
                ((createMessageElement (UserText messageText)
                   (s\<lparr> welcomeDisplay := False \<rparr>))\<lparr> chatInput := [] \<rparr>))"

definition newChat :: "state \<Rightarrow> state" where
  "newChat s =
     s\<lparr> chatWindow := [(0, Welcome)], welcomeDisplay := True, chatInput := [],
        downloadOutputBtn := False, processingStatusArea := NoStatus,
        lastReconciled := None \<rparr>"

definition downloadClick :: "state \<Rightarrow> state" where
  "downloadClick s = fetch CheckStatus DownloadStatus s"

definition downloadStatusResume :: "response \<Rightarrow> state \<Rightarrow> state" where
  "downloadStatusResume r s =
     (case r of
        Http ok (Some statusData) \<Rightarrow>
          (if status_is statusData ''processing'' then alert WaitProcessing s
           else if status_is statusData ''failed'' then alert ProcessingFailed s
           else fetch GetOutput DownloadProbe s)
      | _ \<Rightarrow> alert ConnectionError s)"

definition downloadProbeResume :: "response \<Rightarrow> state \<Rightarrow> state" where
  "downloadProbeResume r s =
     (case r of
        Http ok (Some checkData) \<Rightarrow>
          (if \<not> truthy (map_of checkData ''success'') then alert WaitOutput s
           else setTimeout DownloadDone 1000
                  (s\<lparr> processingStatusArea := Downloading,
                      navigations := navigations s @ [now s] \<rparr>))
      | _ \<Rightarrow> alert ConnectionError s)"

definition downloadDone :: "version \<Rightarrow> state \<Rightarrow> state" where
  "downloadDone v s =
     (let s1 = s\<lparr> processingStatusArea := Downloaded \<rparr>
      in case v of Script_js \<Rightarrow> s1 | Part_000 \<Rightarrow> setTimeout ClearStatus 3000 s1)"

definition allowedExtensions :: "string list" where
  "allowedExtensions = [''.txt'', ''.pdf'', ''.docx'']"

definition fileExtension :: "string \<Rightarrow> string" where
  "fileExtension nm = toLowerCase (substring nm (lastIndexOf nm (CHR ''.'')))"

definition handleFileSelection :: "version \<Rightarrow> file_obj option \<Rightarrow> state \<Rightarrow> state" where
  "handleFileSelection v fo s =
     (case fo of
        None \<Rightarrow> s
      | Some f \<Rightarrow>
          if v = Part_000 \<and> fileExtension (name f) \<notin> set allowedExtensions
          then alert BadFormat s
          else if fsize f > 5 * 1024 * 1024 then alert TooLarge s
          else s\<lparr> readers := readers s @ [(fresh s, f)], fresh := Suc (fresh s) \<rparr>)"

definition base64Data :: "string \<Rightarrow> string option" where
  "base64Data url = (case split_on (CHR '','') url of a # b # rest \<Rightarrow> Some b | _ \<Rightarrow> None)"

definition readerOnload :: "nat \<Rightarrow> string \<Rightarrow> state \<Rightarrow> state" where
  "readerOnload i url s =
     (case map_of (readers s) i of
        None \<Rightarrow> s
      | Some f \<Rightarrow>
          startProcessingFlow None (base64Data url)
            (createMessageElement (FileUpload (name f) (fsize f))
               (s\<lparr> readers := remove1 (i, f) (readers s) \<rparr>)))"

definition readerOnerror :: "version \<Rightarrow> nat \<Rightarrow> state \<Rightarrow> state" where
  "readerOnerror v i s =
     (case map_of (readers s) i of
        None \<Rightarrow> s
      | Some f \<Rightarrow>
          (let s1 = s\<lparr> readers := remove1 (i, f) (readers s) \<rparr>
           in case v of Script_js \<Rightarrow> s1 | Part_000 \<Rightarrow> alert ReadFailed s1))"

subsection \<open>The event loop\<close>

text \<open>
  The next timer to fire is the one due first, the earlier-armed one among equals, and it
  fires at its due time (an ideal scheduler, without jitter). Time never passes a timer
  that is due: \<open>Wait\<close> stops at the next due time. An interval timer is armed again
  one period later; a one-shot timer is removed. A request in flight may settle at any
  later turn, in any order, with any answer.
\<close>

fun earliest :: "timer list \<Rightarrow> timer option" where
  "earliest [] = None"
| "earliest (t # ts) =
     (case earliest ts of
        None \<Rightarrow> Some t
      | Some u \<Rightarrow> if due t \<le> due u then Some t else Some u)"

definition rearm :: "timer \<Rightarrow> timer list \<Rightarrow> timer list" where
  "rearm t ts =
     (case period t of
        None \<Rightarrow> filter (\<lambda>u. tid u \<noteq> tid t) ts
      | Some p \<Rightarrow> map (\<lambda>u. if tid u = tid t then Timer (tid u) (due u + p) (period u) (cb u)
                            else u) ts)"

definition runCallback :: "version \<Rightarrow> callback \<Rightarrow> state \<Rightarrow> state" where
  "runCallback v c s =
     (case c of
        PollTick j \<Rightarrow> pollTick j s
      | Finalize j \<Rightarrow> finalizeStart j s
      | DownloadDone \<Rightarrow> downloadDone v s
      | ClearStatus \<Rightarrow> s\<lparr> processingStatusArea := NoStatus \<rparr>)"

definition fire :: "version \<Rightarrow> state \<Rightarrow> state" where
  "fire v s =
     (case earliest (timers s) of
        None \<Rightarrow> s
      | Some t \<Rightarrow>
          runCallback v (cb t)
            (s\<lparr> now := max (now s) (due t), timers := rearm t (timers s) \<rparr>))"

definition wait :: "nat \<Rightarrow> state \<Rightarrow> state" where
  "wait d s =
     (case earliest (timers s) of
        None \<Rightarrow> s\<lparr> now := now s + d \<rparr>
      | Some t \<Rightarrow> s\<lparr> now := max (now s) (min (now s + d) (due t)) \<rparr>)"

definition resume :: "version \<Rightarrow> continuation \<Rightarrow> response \<Rightarrow> state \<Rightarrow> state" where
  "resume v k r s =
     (case k of
        PollStatus j \<Rightarrow> pollResume r s
      | SubmitPost j \<Rightarrow> fetch CheckStatus (FinalStatus j) (simulateAIResponseResume v r s)
      | FinalStatus j \<Rightarrow> finalResume r s
      | DownloadStatus \<Rightarrow> downloadStatusResume r s
      | DownloadProbe \<Rightarrow> downloadProbeResume r s)"

definition respond :: "version \<Rightarrow> nat \<Rightarrow> response \<Rightarrow> state \<Rightarrow> state" where
  "respond v i r s =
     (case map_of (pending s) i of
        None \<Rightarrow> s
      | Some k \<Rightarrow> resume v k r (s\<lparr> pending := remove1 (i, k) (pending s) \<rparr>))"

datatype event =
    Input string
  | Send
  | NewChat
  | Download
  | FileChange "file_obj option"
  | FileLoad nat string
  | FileError nat
  | Fire
  | Wait nat
  | Respond nat response

fun step :: "version \<Rightarrow> state \<Rightarrow> event \<Rightarrow> state" where
  "step v s (Input t) = s\<lparr> chatInput := t \<rparr>"
| "step v s Send = sendMessage s"
| "step v s NewChat = newChat s"
| "step v s Download = downloadClick s"
| "step v s (FileChange fo) = handleFileSelection v fo s"
| "step v s (FileLoad i url) = readerOnload i url s"
| "step v s (FileError i) = readerOnerror v i s"
| "step v s Fire = fire v s"
| "step v s (Wait d) = wait d s"
| "step v s (Respond i r) = respond v i r s"

definition run :: "version \<Rightarrow> state \<Rightarrow> event list \<Rightarrow> state" where
  "run v s evs = foldl (step v) s evs"

subsection \<open>Observations\<close>

text \<open>
  A POST to \<^verbatim>\<open>process_prompt\<close> fails inside \<^verbatim>\<open>simulateAIResponse\<close> when
  \<^verbatim>\<open>fetch\<close> rejects, when \<^verbatim>\<open>response.ok\<close> is false, or when the body does not parse.
\<close>

definition transportError :: "response \<Rightarrow> bool" where
  "transportError r = (case r of NetworkError \<Rightarrow> True | Http ok body \<Rightarrow> \<not> ok \<or> body = None)"

text \<open>The calls of the availability probe \<^verbatim>\<open>get_output\<close> made so far.\<close>

definition probes :: "state \<Rightarrow> (nat \<times> endpoint \<times> continuation) list" where
  "probes s = filter (\<lambda>q. fst (snd q) = GetOutput) (requests s)"


text \<open>
  The requests a flow has sent, by the place in the flow they come from: its POSTs to
  \<^verbatim>\<open>process_prompt\<close>, its post-finalize \<^verbatim>\<open>check_status\<close> fetches and its poll
  fetches; its armed finalize and poll timers; its POSTs still in flight.
\<close>

definition posts :: "nat \<Rightarrow> state \<Rightarrow> (nat \<times> endpoint \<times> continuation) list" where
  "posts j s = filter (\<lambda>q. snd (snd q) = SubmitPost j) (requests s)"

definition finals :: "nat \<Rightarrow> state \<Rightarrow> (nat \<times> endpoint \<times> continuation) list" where
  "finals j s = filter (\<lambda>q. snd (snd q) = FinalStatus j) (requests s)"

definition polls :: "nat \<Rightarrow> state \<Rightarrow> (nat \<times> endpoint \<times> continuation) list" where
  "polls j s = filter (\<lambda>q. snd (snd q) = PollStatus j) (requests s)"

definition finalizeTimers :: "nat \<Rightarrow> state \<Rightarrow> timer list" where
  "finalizeTimers j s = filter (\<lambda>t. cb t = Finalize j) (timers s)"

definition pollTimers :: "nat \<Rightarrow> state \<Rightarrow> timer list" where
  "pollTimers j s = filter (\<lambda>t. cb t = PollTick j) (timers s)"

definition postsInFlight :: "nat \<Rightarrow> state \<Rightarrow> (nat \<times> continuation) list" where
  "postsInFlight j s = filter (\<lambda>p. snd p = SubmitPost j) (pending s)"

definition isPost :: "endpoint \<Rightarrow> bool" where
  "isPost ep = (case ep of ProcessPrompt p f \<Rightarrow> True | _ \<Rightarrow> False)"

subsection \<open>Invariants of the event loop\<close>

text \<open>
  Every armed timer is due now or later and has an identifier handed out earlier. A poll
  timer is the interval its flow stored in \<^verbatim>\<open>checkStatusInterval\<close>, and its flow has
  not finalized; a finalize timer is the one-shot timer armed right after that interval,
  due five seconds after the submission of its flow, which has not finalized. No other
  timer carries the identifier of some flow's interval. Identifiers are not reused.
\<close>

definition timer_ok :: "state \<Rightarrow> timer \<Rightarrow> bool" where
  "timer_ok s t \<longleftrightarrow>
     now s \<le> due t \<and> tid t < fresh s \<and>
     (case cb t of
        PollTick j \<Rightarrow> j < length (flows s) \<and> tid t = checkStatusInterval (flows s ! j) \<and>
                      \<not> processingDone (flows s ! j)
      | Finalize j \<Rightarrow> j < length (flows s) \<and> \<not> processingDone (flows s ! j) \<and>
                      tid t = Suc (checkStatusInterval (flows s ! j)) \<and>
                      period t = None \<and> due t = submittedAt (flows s ! j) + 5000
      | DownloadDone \<Rightarrow> True
      | ClearStatus \<Rightarrow> True) \<and>
     (\<forall>j < length (flows s). tid t = checkStatusInterval (flows s ! j) \<longrightarrow> cb t = PollTick j)"

definition timers_ok :: "state \<Rightarrow> bool" where
  "timers_ok s \<longleftrightarrow>
     distinct (map tid (timers s)) \<and>
     (\<forall>t \<in> set (timers s). timer_ok s t) \<and>
     (\<forall>j < length (flows s). checkStatusInterval (flows s ! j) < fresh s)"

text \<open>
  Every logged POST belongs to a flow, and nothing but a flow's
  \<^verbatim>\<open>simulateAIResponse\<close> posts. A flow that has not finalized has sent no POST and no
  final status fetch, and exactly one finalize timer is armed for it. A flow that has
  finalized has sent exactly one POST, at its submission time plus five seconds, with its
  own payload; its finalize timer is gone; and either the POST is still in flight, or it
  has settled and exactly one final status fetch has been sent.
\<close>

definition request_ok :: "state \<Rightarrow> nat \<times> endpoint \<times> continuation \<Rightarrow> bool" where
  "request_ok s q \<longleftrightarrow>
     (case snd (snd q) of
        SubmitPost j \<Rightarrow> j < length (flows s)
      | FinalStatus j \<Rightarrow> j < length (flows s) \<and> \<not> isPost (fst (snd q))
      | PollStatus j \<Rightarrow> \<not> isPost (fst (snd q))
      | DownloadStatus \<Rightarrow> \<not> isPost (fst (snd q))
      | DownloadProbe \<Rightarrow> \<not> isPost (fst (snd q)))"

definition flow_ok :: "state \<Rightarrow> nat \<Rightarrow> bool" where
  "flow_ok s j \<longleftrightarrow>
     (if processingDone (flows s ! j)
      then posts j s =
             [(submittedAt (flows s ! j) + 5000,
               ProcessPrompt (userPrompt (flows s ! j)) (fileDataBase64 (flows s ! j)),
               SubmitPost j)] \<and>
           finalizeTimers j s = [] \<and>
           length (postsInFlight j s) + length (finals j s) = 1
      else posts j s = [] \<and> finals j s = [] \<and> postsInFlight j s = [] \<and>
           length (finalizeTimers j s) = 1)"

definition log_ok :: "state \<Rightarrow> bool" where
  "log_ok s \<longleftrightarrow>
     (\<forall>q \<in> set (requests s). request_ok s q) \<and>
     (\<forall>p \<in> set (pending s). \<forall>j. snd p = SubmitPost j \<longrightarrow> j < length (flows s)) \<and>
     (\<forall>j < length (flows s). flow_ok s j)"

subsection \<open>Jobs in progress\<close>

text \<open>
  A job is in progress from its submission until its post-finalize reconciliation has
  run: while its finalize timer is armed, while its POST is in flight, and while its final
  status fetch is in flight. An event starts a job when it is a send with a non-blank
  input or the end of a file read. A run submits one job at a time when no event of it
  starts a job while another is in progress.
\<close>

definition isFinalize :: "timer \<Rightarrow> bool" where
  "isFinalize t = (case cb t of Finalize j \<Rightarrow> True | _ \<Rightarrow> False)"

definition isFinalizing :: "nat \<times> continuation \<Rightarrow> bool" where
  "isFinalizing p = (case snd p of SubmitPost j \<Rightarrow> True | FinalStatus j \<Rightarrow> True | _ \<Rightarrow> False)"

definition activeJobs :: "state \<Rightarrow> nat" where
  "activeJobs s = length (filter isFinalize (timers s)) + length (filter isFinalizing (pending s))"

definition startsFlow :: "state \<Rightarrow> event \<Rightarrow> bool" where
  "startsFlow s e =
     (case e of
        Send \<Rightarrow> trim (chatInput s) \<noteq> []
      | FileLoad i url \<Rightarrow> map_of (readers s) i \<noteq> None
      | _ \<Rightarrow> False)"

fun oneAtATime :: "version \<Rightarrow> state \<Rightarrow> event list \<Rightarrow> bool" where
  "oneAtATime v s [] = True"
| "oneAtATime v s (e # es) = ((startsFlow s e \<longrightarrow> activeJobs s = 0) \<and> oneAtATime v (step v s e) es)"

text \<open>The last reconciled backend status is \<^verbatim>\<open>completed\<close>.\<close>

definition reconciledCompleted :: "state \<Rightarrow> bool" where
  "reconciledCompleted s =
     (case lastReconciled s of None \<Rightarrow> False | Some statusData \<Rightarrow> status_is statusData ''completed'')"

text \<open>
  At most one job is in progress; while one is, the download button is hidden and nothing
  is reconciled; and the button shows exactly when the last reconciled status is
  \<^verbatim>\<open>completed\<close>.
\<close>

definition download_ok :: "state \<Rightarrow> bool" where
  "download_ok s \<longleftrightarrow>
     activeJobs s \<le> 1 \<and>
     (activeJobs s = 1 \<longrightarrow> \<not> downloadOutputBtn s \<and> lastReconciled s = None) \<and>
     (downloadOutputBtn s \<longleftrightarrow> reconciledCompleted s)"


section \<open>Properties\<close>

subsection \<open>What each primitive and handler changes\<close>

lemma fetch_simps [simp]:
  "pending (fetch ep k s) = pending s @ [(fresh s, k)]"
  "requests (fetch ep k s) = requests s @ [(now s, ep, k)]"
  "fresh (fetch ep k s) = Suc (fresh s)"
  "timers (fetch ep k s) = timers s"
  "flows (fetch ep k s) = flows s"
  "now (fetch ep k s) = now s"
  "alerts (fetch ep k s) = alerts s"
  "navigations (fetch ep k s) = navigations s"
  "chatWindow (fetch ep k s) = chatWindow s"
  "downloadOutputBtn (fetch ep k s) = downloadOutputBtn s"
  "processingStatusArea (fetch ep k s) = processingStatusArea s"
  "lastReconciled (fetch ep k s) = lastReconciled s"
  "unhandled (fetch ep k s) = unhandled s"
  "readers (fetch ep k s) = readers s"
  by (simp_all add: fetch_def)

lemma alert_simps [simp]:
  "pending (alert d s) = pending s"
  "requests (alert d s) = requests s"
  "fresh (alert d s) = fresh s"
  "timers (alert d s) = timers s"
  "flows (alert d s) = flows s"
  "now (alert d s) = now s"
  "alerts (alert d s) = alerts s @ [d]"
  "navigations (alert d s) = navigations s"
  "chatWindow (alert d s) = chatWindow s"
  "downloadOutputBtn (alert d s) = downloadOutputBtn s"
  "processingStatusArea (alert d s) = processingStatusArea s"
  "lastReconciled (alert d s) = lastReconciled s"
  "unhandled (alert d s) = unhandled s"
  "readers (alert d s) = readers s"
  by (simp_all add: alert_def)

lemma createMessageElement_simps [simp]:
  "pending (createMessageElement m s) = pending s"
  "requests (createMessageElement m s) = requests s"
  "fresh (createMessageElement m s) = Suc (fresh s)"
  "timers (createMessageElement m s) = timers s"
  "flows (createMessageElement m s) = flows s"
  "now (createMessageElement m s) = now s"
  "alerts (createMessageElement m s) = alerts s"
  "navigations (createMessageElement m s) = navigations s"
  "chatWindow (createMessageElement m s) = chatWindow s @ [(fresh s, m)]"
  "downloadOutputBtn (createMessageElement m s) = downloadOutputBtn s"
  "processingStatusArea (createMessageElement m s) = processingStatusArea s"
  "lastReconciled (createMessageElement m s) = lastReconciled s"
  "unhandled (createMessageElement m s) = unhandled s"
  "readers (createMessageElement m s) = readers s"
  by (simp_all add: createMessageElement_def)

lemma setTimeout_simps [simp]:
  "pending (setTimeout c d s) = pending s"
  "requests (setTimeout c d s) = requests s"
  "fresh (setTimeout c d s) = Suc (fresh s)"
  "timers (setTimeout c d s) = timers s @ [Timer (fresh s) (now s + d) None c]"
  "flows (setTimeout c d s) = flows s"
  "now (setTimeout c d s) = now s"
  "alerts (setTimeout c d s) = alerts s"
  "navigations (setTimeout c d s) = navigations s"
  "chatWindow (setTimeout c d s) = chatWindow s"
  "downloadOutputBtn (setTimeout c d s) = downloadOutputBtn s"
  "processingStatusArea (setTimeout c d s) = processingStatusArea s"
  "lastReconciled (setTimeout c d s) = lastReconciled s"
  "unhandled (setTimeout c d s) = unhandled s"
  "readers (setTimeout c d s) = readers s"
  by (simp_all add: setTimeout_def)

lemma setInterval_simps [simp]:
  "pending (setInterval c d s) = pending s"
  "requests (setInterval c d s) = requests s"
  "fresh (setInterval c d s) = Suc (fresh s)"
  "timers (setInterval c d s) = timers s @ [Timer (fresh s) (now s + d) (Some d) c]"
  "flows (setInterval c d s) = flows s"
  "now (setInterval c d s) = now s"
  "alerts (setInterval c d s) = alerts s"
  "navigations (setInterval c d s) = navigations s"
  "chatWindow (setInterval c d s) = chatWindow s"
  "downloadOutputBtn (setInterval c d s) = downloadOutputBtn s"
  "processingStatusArea (setInterval c d s) = processingStatusArea s"
  "lastReconciled (setInterval c d s) = lastReconciled s"
  "unhandled (setInterval c d s) = unhandled s"
  "readers (setInterval c d s) = readers s"
  by (simp_all add: setInterval_def)

lemma clearInterval_simps [simp]:
  "pending (clearInterval i s) = pending s"
  "requests (clearInterval i s) = requests s"
  "fresh (clearInterval i s) = fresh s"
  "timers (clearInterval i s) = filter (\<lambda>t. tid t \<noteq> i) (timers s)"
  "flows (clearInterval i s) = flows s"
  "now (clearInterval i s) = now s"
  "alerts (clearInterval i s) = alerts s"
  "navigations (clearInterval i s) = navigations s"
  "chatWindow (clearInterval i s) = chatWindow s"
  "downloadOutputBtn (clearInterval i s) = downloadOutputBtn s"
  "processingStatusArea (clearInterval i s) = processingStatusArea s"
  "lastReconciled (clearInterval i s) = lastReconciled s"
  "unhandled (clearInterval i s) = unhandled s"
  "readers (clearInterval i s) = readers s"
  by (simp_all add: clearInterval_def)

lemma removeChild_simps [simp]:
  "pending (removeChild e s) = pending s"
  "requests (removeChild e s) = requests s"
  "fresh (removeChild e s) = fresh s"
  "timers (removeChild e s) = timers s"
  "flows (removeChild e s) = flows s"
  "now (removeChild e s) = now s"
  "alerts (removeChild e s) = alerts s"
  "navigations (removeChild e s) = navigations s"
  "chatWindow (removeChild e s) = filter (\<lambda>x. fst x \<noteq> e) (chatWindow s)"
  "downloadOutputBtn (removeChild e s) = downloadOutputBtn s"
  "processingStatusArea (removeChild e s) = processingStatusArea s"
  "lastReconciled (removeChild e s) = lastReconciled s"
  "unhandled (removeChild e s) = unhandled s"
  "readers (removeChild e s) = readers s"
  by (simp_all add: removeChild_def)

lemma startProcessingFlow_simps [simp]:
  "navigations (startProcessingFlow p f s) = navigations s"
  "requests (startProcessingFlow p f s) = requests s"
  "pending (startProcessingFlow p f s) = pending s"
  "alerts (startProcessingFlow p f s) = alerts s"
  "now (startProcessingFlow p f s) = now s"
  "unhandled (startProcessingFlow p f s) = unhandled s"
  "readers (startProcessingFlow p f s) = readers s"
  "fresh (startProcessingFlow p f s) = fresh s + 4"
  "downloadOutputBtn (startProcessingFlow p f s) = False"
  "lastReconciled (startProcessingFlow p f s) = None"
  "processingStatusArea (startProcessingFlow p f s) = Preparing"
  "chatWindow (startProcessingFlow p f s) =
     chatWindow s @ [(fresh s, RequestSent), (Suc (fresh s), Typing)]"
  "timers (startProcessingFlow p f s) =
     timers s @ [Timer (fresh s + 2) (now s + 2000) (Some 2000) (PollTick (length (flows s))),
                 Timer (fresh s + 3) (now s + 5000) None (Finalize (length (flows s)))]"
  "flows (startProcessingFlow p f s) =
     flows s @ [\<lparr> userPrompt = p, fileDataBase64 = f, initialResponseElement = fresh s,
                  typingIndicator = Suc (fresh s), processingDone = False,
                  checkStatusInterval = fresh s + 2, submittedAt = now s \<rparr>]"
  by (simp_all add: startProcessingFlow_def Let_def)

lemma sendMessage_frame [simp]:
  "navigations (sendMessage s) = navigations s"
  "requests (sendMessage s) = requests s"
  "pending (sendMessage s) = pending s"
  "alerts (sendMessage s) = alerts s"
  "now (sendMessage s) = now s"
  "unhandled (sendMessage s) = unhandled s"
  "readers (sendMessage s) = readers s"
  by (simp_all add: sendMessage_def Let_def)

lemma newChat_frame [simp]:
  "navigations (newChat s) = navigations s"
  "requests (newChat s) = requests s"
  "pending (newChat s) = pending s"
  "alerts (newChat s) = alerts s"
  "now (newChat s) = now s"
  "unhandled (newChat s) = unhandled s"
  "readers (newChat s) = readers s"
  "timers (newChat s) = timers s"
  "flows (newChat s) = flows s"
  "fresh (newChat s) = fresh s"
  by (simp_all add: newChat_def)

lemma handleFileSelection_frame [simp]:
  "navigations (handleFileSelection v fo s) = navigations s"
  "requests (handleFileSelection v fo s) = requests s"
  "pending (handleFileSelection v fo s) = pending s"
  "now (handleFileSelection v fo s) = now s"
  "unhandled (handleFileSelection v fo s) = unhandled s"
  "timers (handleFileSelection v fo s) = timers s"
  "flows (handleFileSelection v fo s) = flows s"
  "chatWindow (handleFileSelection v fo s) = chatWindow s"
  "downloadOutputBtn (handleFileSelection v fo s) = downloadOutputBtn s"
  "processingStatusArea (handleFileSelection v fo s) = processingStatusArea s"
  "lastReconciled (handleFileSelection v fo s) = lastReconciled s"
  by (simp_all add: handleFileSelection_def split: option.splits)

lemma readerOnload_frame [simp]:
  "navigations (readerOnload i url s) = navigations s"
  "requests (readerOnload i url s) = requests s"
  "pending (readerOnload i url s) = pending s"
  "alerts (readerOnload i url s) = alerts s"
  "now (readerOnload i url s) = now s"
  "unhandled (readerOnload i url s) = unhandled s"
  by (simp_all add: readerOnload_def split: option.splits)

lemma readerOnerror_frame [simp]:
  "navigations (readerOnerror v i s) = navigations s"
  "requests (readerOnerror v i s) = requests s"
  "pending (readerOnerror v i s) = pending s"
  "now (readerOnerror v i s) = now s"
  "unhandled (readerOnerror v i s) = unhandled s"
  "timers (readerOnerror v i s) = timers s"
  "flows (readerOnerror v i s) = flows s"
  "fresh (readerOnerror v i s) = fresh s"
  "chatWindow (readerOnerror v i s) = chatWindow s"
  "downloadOutputBtn (readerOnerror v i s) = downloadOutputBtn s"
  "processingStatusArea (readerOnerror v i s) = processingStatusArea s"
  "lastReconciled (readerOnerror v i s) = lastReconciled s"
  by (simp_all add: readerOnerror_def Let_def split: option.splits version.splits)

lemma wait_frame [simp]:
  "navigations (wait d s) = navigations s"
  "requests (wait d s) = requests s"
  "pending (wait d s) = pending s"
  "alerts (wait d s) = alerts s"
  "unhandled (wait d s) = unhandled s"
  "readers (wait d s) = readers s"
  "timers (wait d s) = timers s"
  "flows (wait d s) = flows s"
  "fresh (wait d s) = fresh s"
  "chatWindow (wait d s) = chatWindow s"
  "downloadOutputBtn (wait d s) = downloadOutputBtn s"
  "processingStatusArea (wait d s) = processingStatusArea s"
  "lastReconciled (wait d s) = lastReconciled s"
  by (simp_all add: wait_def split: option.splits)

lemma pollTick_frame [simp]:
  "navigations (pollTick j s) = navigations s"
  "alerts (pollTick j s) = alerts s"
  "now (pollTick j s) = now s"
  "unhandled (pollTick j s) = unhandled s"
  "readers (pollTick j s) = readers s"
  "flows (pollTick j s) = flows s"
  "chatWindow (pollTick j s) = chatWindow s"
  "downloadOutputBtn (pollTick j s) = downloadOutputBtn s"
  "processingStatusArea (pollTick j s) = processingStatusArea s"
  "lastReconciled (pollTick j s) = lastReconciled s"
  by (simp_all add: pollTick_def)

lemma finalizeStart_frame [simp]:
  "navigations (finalizeStart j s) = navigations s"
  "alerts (finalizeStart j s) = alerts s"
  "now (finalizeStart j s) = now s"
  "unhandled (finalizeStart j s) = unhandled s"
  "readers (finalizeStart j s) = readers s"
  "downloadOutputBtn (finalizeStart j s) = downloadOutputBtn s"
  "processingStatusArea (finalizeStart j s) = processingStatusArea s"
  "lastReconciled (finalizeStart j s) = lastReconciled s"
  by (simp_all add: finalizeStart_def simulateAIResponse_def Let_def)

lemma downloadDone_frame [simp]:
  "navigations (downloadDone v s) = navigations s"
  "requests (downloadDone v s) = requests s"
  "pending (downloadDone v s) = pending s"
  "alerts (downloadDone v s) = alerts s"
  "now (downloadDone v s) = now s"
  "unhandled (downloadDone v s) = unhandled s"
  "readers (downloadDone v s) = readers s"
  "flows (downloadDone v s) = flows s"
  "chatWindow (downloadDone v s) = chatWindow s"
  "downloadOutputBtn (downloadDone v s) = downloadOutputBtn s"
  "lastReconciled (downloadDone v s) = lastReconciled s"
  by (simp_all add: downloadDone_def Let_def split: version.splits)

lemma runCallback_frame [simp]:
  "navigations (runCallback v c s) = navigations s"
  "alerts (runCallback v c s) = alerts s"
  "now (runCallback v c s) = now s"
  "unhandled (runCallback v c s) = unhandled s"
  "readers (runCallback v c s) = readers s"
  "downloadOutputBtn (runCallback v c s) = downloadOutputBtn s"
  "lastReconciled (runCallback v c s) = lastReconciled s"
  by (simp_all add: runCallback_def split: callback.splits)

lemma fire_frame [simp]:
  "navigations (fire v s) = navigations s"
  "alerts (fire v s) = alerts s"
  "unhandled (fire v s) = unhandled s"
  "readers (fire v s) = readers s"
  "downloadOutputBtn (fire v s) = downloadOutputBtn s"
  "lastReconciled (fire v s) = lastReconciled s"
  by (simp_all add: fire_def split: option.splits)

lemma pollStatusUpdate_frame [simp]:
  "navigations (pollStatusUpdate d s) = navigations s"
  "requests (pollStatusUpdate d s) = requests s"
  "pending (pollStatusUpdate d s) = pending s"
  "alerts (pollStatusUpdate d s) = alerts s"
  "now (pollStatusUpdate d s) = now s"
  "unhandled (pollStatusUpdate d s) = unhandled s"
  "readers (pollStatusUpdate d s) = readers s"
  "timers (pollStatusUpdate d s) = timers s"
  "flows (pollStatusUpdate d s) = flows s"
  "fresh (pollStatusUpdate d s) = fresh s"
  "chatWindow (pollStatusUpdate d s) = chatWindow s"
  "downloadOutputBtn (pollStatusUpdate d s) = downloadOutputBtn s"
  "lastReconciled (pollStatusUpdate d s) = lastReconciled s"
  by (simp_all add: pollStatusUpdate_def)

lemma pollResume_frame [simp]:
  "navigations (pollResume r s) = navigations s"
  "requests (pollResume r s) = requests s"
  "pending (pollResume r s) = pending s"
  "alerts (pollResume r s) = alerts s"
  "now (pollResume r s) = now s"
  "unhandled (pollResume r s) = unhandled s"
  "readers (pollResume r s) = readers s"
  "timers (pollResume r s) = timers s"
  "flows (pollResume r s) = flows s"
  "fresh (pollResume r s) = fresh s"
  "chatWindow (pollResume r s) = chatWindow s"
  "downloadOutputBtn (pollResume r s) = downloadOutputBtn s"
  "lastReconciled (pollResume r s) = lastReconciled s"
  by (simp_all add: pollResume_def split: response.splits option.splits)

lemma simulateAIResponseResume_frame [simp]:
  "navigations (simulateAIResponseResume v r s) = navigations s"
  "requests (simulateAIResponseResume v r s) = requests s"
  "pending (simulateAIResponseResume v r s) = pending s"
  "alerts (simulateAIResponseResume v r s) = alerts s"
  "now (simulateAIResponseResume v r s) = now s"
  "unhandled (simulateAIResponseResume v r s) = unhandled s"
  "readers (simulateAIResponseResume v r s) = readers s"
  "timers (simulateAIResponseResume v r s) = timers s"
  "flows (simulateAIResponseResume v r s) = flows s"
  "fresh (simulateAIResponseResume v r s) = Suc (fresh s)"
  "downloadOutputBtn (simulateAIResponseResume v r s) = downloadOutputBtn s"
  "processingStatusArea (simulateAIResponseResume v r s) = processingStatusArea s"
  "lastReconciled (simulateAIResponseResume v r s) = lastReconciled s"
  by (simp_all add: simulateAIResponseResume_def
      split: response.splits option.splits bool.splits version.splits jvalue.splits)

lemma finalStatusUpdate_frame [simp]:
  "navigations (finalStatusUpdate d s) = navigations s"
  "requests (finalStatusUpdate d s) = requests s"
  "pending (finalStatusUpdate d s) = pending s"
  "alerts (finalStatusUpdate d s) = alerts s"
  "now (finalStatusUpdate d s) = now s"
  "unhandled (finalStatusUpdate d s) = unhandled s"
  "readers (finalStatusUpdate d s) = readers s"
  "timers (finalStatusUpdate d s) = timers s"
  "flows (finalStatusUpdate d s) = flows s"
  "fresh (finalStatusUpdate d s) = fresh s"
  "chatWindow (finalStatusUpdate d s) = chatWindow s"
  "lastReconciled (finalStatusUpdate d s) = lastReconciled s"
  by (simp_all add: finalStatusUpdate_def)

lemma finalResume_frame [simp]:
  "navigations (finalResume r s) = navigations s"
  "requests (finalResume r s) = requests s"
  "pending (finalResume r s) = pending s"
  "alerts (finalResume r s) = alerts s"
  "now (finalResume r s) = now s"
  "readers (finalResume r s) = readers s"
  "timers (finalResume r s) = timers s"
  "flows (finalResume r s) = flows s"
  "fresh (finalResume r s) = fresh s"
  "chatWindow (finalResume r s) = chatWindow s"
  by (simp_all add: finalResume_def split: response.splits option.splits)

lemma downloadStatusResume_frame [simp]:
  "navigations (downloadStatusResume r s) = navigations s"
  "now (downloadStatusResume r s) = now s"
  "unhandled (downloadStatusResume r s) = unhandled s"
  "readers (downloadStatusResume r s) = readers s"
  "timers (downloadStatusResume r s) = timers s"
  "flows (downloadStatusResume r s) = flows s"
  "chatWindow (downloadStatusResume r s) = chatWindow s"
  "downloadOutputBtn (downloadStatusResume r s) = downloadOutputBtn s"
  "processingStatusArea (downloadStatusResume r s) = processingStatusArea s"
  "lastReconciled (downloadStatusResume r s) = lastReconciled s"
  by (simp_all add: downloadStatusResume_def split: response.splits option.splits)

lemma downloadProbeResume_frame [simp]:
  "requests (downloadProbeResume r s) = requests s"
  "pending (downloadProbeResume r s) = pending s"
  "now (downloadProbeResume r s) = now s"
  "unhandled (downloadProbeResume r s) = unhandled s"
  "readers (downloadProbeResume r s) = readers s"
  "flows (downloadProbeResume r s) = flows s"
  "chatWindow (downloadProbeResume r s) = chatWindow s"
  "downloadOutputBtn (downloadProbeResume r s) = downloadOutputBtn s"
  "lastReconciled (downloadProbeResume r s) = lastReconciled s"
  by (simp_all add: downloadProbeResume_def split: response.splits option.splits)

lemma respond_pending:
  "map_of (pending s) i = Some k \<Longrightarrow>
   respond v i r s = resume v k r (s\<lparr>pending := remove1 (i, k) (pending s)\<rparr>)"
  by (simp add: respond_def)

lemma navigations_only_after_probe:
  assumes "navigations (step v s e) \<noteq> navigations s"
  shows "\<exists>i ok d. e = Respond i (Http ok (Some d)) \<and> map_of (pending s) i = Some DownloadProbe \<and>
     truthy (map_of d ''success'')"
proof (cases e)
  case (Respond i r)
  show ?thesis
  proof (cases "map_of (pending s) i")
    case None
    with assms Respond show ?thesis by (simp add: respond_def)
  next
    case (Some k)
    with assms Respond have ch: "navigations (resume v k r (s\<lparr>pending := remove1 (i, k) (pending s)\<rparr>)) \<noteq> navigations s"
      by (simp add: respond_def)
    then have k: "k = DownloadProbe"
      by (cases k) (simp_all add: resume_def)
    with ch obtain ok d where r: "r = Http ok (Some d)" and "truthy (map_of d ''success'')"
      by (cases r) (auto simp: resume_def downloadProbeResume_def split: option.splits if_splits)
    with Respond Some k show ?thesis by simp
  qed
qed (use assms in \<open>simp_all add: downloadClick_def\<close>)

lemma probes_only_after_status:
  assumes "probes (step v s e) \<noteq> probes s"
  shows "\<exists>i ok d. e = Respond i (Http ok (Some d)) \<and> map_of (pending s) i = Some DownloadStatus \<and>
     \<not> status_is d ''processing'' \<and> \<not> status_is d ''failed''"
proof (cases e)
  case (Respond i r)
  show ?thesis
  proof (cases "map_of (pending s) i")
    case None
    with assms Respond show ?thesis by (simp add: respond_def)
  next
    case (Some k)
    with assms Respond have ch: "probes (resume v k r (s\<lparr>pending := remove1 (i, k) (pending s)\<rparr>)) \<noteq> probes s"
      by (simp add: respond_def)
    then have k: "k = DownloadStatus"
      by (cases k) (simp_all add: resume_def probes_def)
    with ch obtain ok d where r: "r = Http ok (Some d)" and "\<not> status_is d ''processing''" "\<not> status_is d ''failed''"
      by (cases r) (auto simp: resume_def probes_def downloadStatusResume_def split: option.splits if_splits)
    with Respond Some k show ?thesis by simp
  qed
next
  case Fire
  with assms show ?thesis
    by (auto simp: probes_def fire_def runCallback_def pollTick_def finalizeStart_def
        simulateAIResponse_def Let_def split: option.splits callback.splits if_splits)
qed (use assms in \<open>simp_all add: probes_def downloadClick_def\<close>)


subsection \<open>The download handler\<close>

text \<open>
  C5. A click on the download button first fetches \<^verbatim>\<open>check_status\<close> and nothing else.
  When that answer says \<^verbatim>\<open>processing\<close>, the please-wait dialog is shown and the
  handler ends there: no request is sent, no timer armed, no navigation. When it says
  \<^verbatim>\<open>failed\<close>, the failure dialog is shown and the handler ends likewise. For every
  other status the handler calls the probe \<^verbatim>\<open>get_output\<close>. When the probe's
  \<^verbatim>\<open>success\<close> is falsy, the please-wait dialog is shown and the handler ends without
  a navigation; otherwise the navigation to \<^verbatim>\<open>download_output\<close> happens. No other
  turn of the event loop calls the probe, and none navigates.
\<close>

theorem download_gating:
  "requests (step v s Download) = requests s @ [(now s, CheckStatus, DownloadStatus)] \<and>
   pending (step v s Download) = pending s @ [(fresh s, DownloadStatus)] \<and>
   alerts (step v s Download) = alerts s \<and>
   navigations (step v s Download) = navigations s \<and>
   (map_of (pending s) i = Some DownloadStatus \<longrightarrow>
      (let s' = step v s (Respond i (Http ok (Some d)))
       in if status_is d ''processing''
          then alerts s' = alerts s @ [WaitProcessing] \<and> requests s' = requests s \<and>
               pending s' = remove1 (i, DownloadStatus) (pending s) \<and>
               timers s' = timers s \<and> navigations s' = navigations s
          else if status_is d ''failed''
          then alerts s' = alerts s @ [ProcessingFailed] \<and> requests s' = requests s \<and>
               pending s' = remove1 (i, DownloadStatus) (pending s) \<and>
               timers s' = timers s \<and> navigations s' = navigations s
          else alerts s' = alerts s \<and>
               requests s' = requests s @ [(now s, GetOutput, DownloadProbe)] \<and>
               pending s' = remove1 (i, DownloadStatus) (pending s) @ [(fresh s, DownloadProbe)] \<and>
               timers s' = timers s \<and> navigations s' = navigations s)) \<and>
   (map_of (pending s) i = Some DownloadProbe \<longrightarrow>
      (let s' = step v s (Respond i (Http ok (Some d)))
       in if \<not> truthy (map_of d ''success'')
          then alerts s' = alerts s @ [WaitOutput] \<and> requests s' = requests s \<and>
               pending s' = remove1 (i, DownloadProbe) (pending s) \<and>
               timers s' = timers s \<and> navigations s' = navigations s \<and>
               processingStatusArea s' = processingStatusArea s
          else alerts s' = alerts s \<and> requests s' = requests s \<and>
               pending s' = remove1 (i, DownloadProbe) (pending s) \<and>
               navigations s' = navigations s @ [now s] \<and>
               processingStatusArea s' = Downloading \<and>
               timers s' = timers s @ [Timer (fresh s) (now s + 1000) None DownloadDone])) \<and>
   (probes (step v s e) \<noteq> probes s \<longrightarrow>
      (\<exists>j ok' d'. e = Respond j (Http ok' (Some d')) \<and> map_of (pending s) j = Some DownloadStatus \<and>
         \<not> status_is d' ''processing'' \<and> \<not> status_is d' ''failed'')) \<and>
   (navigations (step v s e) \<noteq> navigations s \<longrightarrow>
      (\<exists>j ok' d'. e = Respond j (Http ok' (Some d')) \<and> map_of (pending s) j = Some DownloadProbe \<and>
         truthy (map_of d' ''success'')))"
proof -
  have click: "requests (step v s Download) = requests s @ [(now s, CheckStatus, DownloadStatus)] \<and>
      pending (step v s Download) = pending s @ [(fresh s, DownloadStatus)] \<and>
      alerts (step v s Download) = alerts s \<and>
      navigations (step v s Download) = navigations s"
    by (simp add: downloadClick_def)
  have status: "map_of (pending s) i = Some DownloadStatus \<longrightarrow>
      (let s' = step v s (Respond i (Http ok (Some d)))
       in if status_is d ''processing''
          then alerts s' = alerts s @ [WaitProcessing] \<and> requests s' = requests s \<and>
               pending s' = remove1 (i, DownloadStatus) (pending s) \<and>
               timers s' = timers s \<and> navigations s' = navigations s
          else if status_is d ''failed''
          then alerts s' = alerts s @ [ProcessingFailed] \<and> requests s' = requests s \<and>
               pending s' = remove1 (i, DownloadStatus) (pending s) \<and>
               timers s' = timers s \<and> navigations s' = navigations s
          else alerts s' = alerts s \<and>
               requests s' = requests s @ [(now s, GetOutput, DownloadProbe)] \<and>
               pending s' = remove1 (i, DownloadStatus) (pending s) @ [(fresh s, DownloadProbe)] \<and>
               timers s' = timers s \<and> navigations s' = navigations s)"
    by (simp add: respond_pending resume_def downloadStatusResume_def)
  have probe: "map_of (pending s) i = Some DownloadProbe \<longrightarrow>
      (let s' = step v s (Respond i (Http ok (Some d)))
       in if \<not> truthy (map_of d ''success'')
          then alerts s' = alerts s @ [WaitOutput] \<and> requests s' = requests s \<and>
               pending s' = remove1 (i, DownloadProbe) (pending s) \<and>
               timers s' = timers s \<and> navigations s' = navigations s \<and>
               processingStatusArea s' = processingStatusArea s
          else alerts s' = alerts s \<and> requests s' = requests s \<and>
               pending s' = remove1 (i, DownloadProbe) (pending s) \<and>
               navigations s' = navigations s @ [now s] \<and>
               processingStatusArea s' = Downloading \<and>
               timers s' = timers s @ [Timer (fresh s) (now s + 1000) None DownloadDone])"
    by (simp add: respond_pending resume_def downloadProbeResume_def)
  from click status probe probes_only_after_status [of v s e] navigations_only_after_probe [of v s e]
  show ?thesis by blast
qed

theorem download_gating_witness:
  "map_of (pending (step Part_000 init Download)) 1 = Some DownloadStatus \<and>
   status_is [(''status'', JString ''processing'')] ''processing'' \<and>
   alerts (step Part_000 (step Part_000 init Download)
             (Respond 1 (Http True (Some [(''status'', JString ''processing'')]))))
     = [WaitProcessing] \<and>
   probes (step Part_000 (step Part_000 init Download)
             (Respond 1 (Http True (Some [(''status'', JString ''processing'')]))))
     = [] \<and>
   map_of (pending (run Part_000 init [Download,
             Respond 1 (Http True (Some [(''status'', JString ''completed'')]))])) 2
     = Some DownloadProbe \<and>
   truthy (map_of [(''success'', JBool True)] ''success'') \<and>
   navigations (step Part_000 (run Part_000 init [Download,
             Respond 1 (Http True (Some [(''status'', JString ''completed'')]))])
             (Respond 2 (Http True (Some [(''success'', JBool True)]))))
     = [0]"
proof -
  have a: "map_of (pending (step Part_000 init Download)) 1 = Some DownloadStatus"
    by (simp add: downloadClick_def init_def)
  have b: "status_is [(''status'', JString ''processing'')] ''processing''"
    by (simp add: status_is_def)
  have c: "map_of (pending (run Part_000 init [Download,
             Respond 1 (Http True (Some [(''status'', JString ''completed'')]))])) 2
     = Some DownloadProbe"
    by code_simp
  have d: "truthy (map_of [(''success'', JBool True)] ''success'')"
    by (simp add: truthy_def)
  have e: "now (run Part_000 init [Download,
             Respond 1 (Http True (Some [(''status'', JString ''completed'')]))]) = 0"
    "navigations (run Part_000 init [Download,
             Respond 1 (Http True (Some [(''status'', JString ''completed'')]))]) = []"
    by code_simp+
  have f: "alerts (step Part_000 init Download) = []" "probes (step Part_000 init Download) = []"
    by (simp_all add: downloadClick_def init_def probes_def)
  show ?thesis
    using a b c d e f
      download_gating [where v = Part_000 and s = "step Part_000 init Download" and i = 1
          and d = "[(''status'', JString ''processing'')]" and ok = True and e = Fire]
      download_gating [where v = Part_000 and s = "run Part_000 init [Download,
             Respond 1 (Http True (Some [(''status'', JString ''completed'')]))]" and i = 2
          and d = "[(''success'', JBool True)]" and ok = True and e = Fire]
    by (simp add: Let_def probes_def)
qed

subsection \<open>Blank prompts\<close>

text \<open>
  C10. Sending an empty or white-space-only prompt does nothing: \<^verbatim>\<open>sendMessage\<close>
  returns before it creates a message or starts a flow, so the whole state (chat, status
  text, download button, input field, timers, requests sent) is the one before.
\<close>

theorem sendMessage_blank_noop: "trim (chatInput s) = [] \<Longrightarrow> step v s Send = s"
  by (simp add: sendMessage_def)

theorem sendMessage_blank_noop_witness:
  "trim (chatInput (init\<lparr>chatInput := ''  ''\<rparr>)) = [] \<and>
   step Part_000 (init\<lparr>chatInput := ''  ''\<rparr>) Send = init\<lparr>chatInput := ''  ''\<rparr>"
proof -
  have blank: "trim (chatInput (init\<lparr>chatInput := ''  ''\<rparr>)) = []"
    by code_simp
  show ?thesis
    using blank sendMessage_blank_noop [OF blank, of Part_000] by simp
qed

subsection \<open>The status-text mapping at its two call sites\<close>

text \<open>
  C8, as stated, fails: for the status \<^verbatim>\<open>processing\<close> the poll tick writes the
  agent-working text, the post-finalize reconciliation writes nothing.
\<close>

theorem status_mapping_sites_differ:
  "processingStatusArea (pollStatusUpdate [(''status'', JString ''processing'')] init)
   \<noteq> processingStatusArea (finalStatusUpdate [(''status'', JString ''processing'')] init)"
  by (simp add: pollStatusUpdate_def finalStatusUpdate_def status_is_def init_def)

text \<open>
  C8, amended. For \<^verbatim>\<open>completed\<close> and \<^verbatim>\<open>failed\<close> the two call sites write the same
  status text (success or failure with the backend's timestamp). For every other status
  the poll tick writes the agent-working text with the current time
  (\<^verbatim>\<open>processing\<close>) or the ready text, and the reconciliation leaves the status text
  as it was.
\<close>

theorem status_mapping_sites_agree:
  "(status_is d ''completed'' \<or> status_is d ''failed'' \<longrightarrow>
      processingStatusArea (finalStatusUpdate d s) = processingStatusArea (pollStatusUpdate d s) \<and>
      processingStatusArea (pollStatusUpdate d s) =
        (if status_is d ''completed'' then CompletedAt (timestamp d) else FailedAt (timestamp d))) \<and>
   (\<not> status_is d ''completed'' \<and> \<not> status_is d ''failed'' \<longrightarrow>
      processingStatusArea (finalStatusUpdate d s) = processingStatusArea s \<and>
      processingStatusArea (pollStatusUpdate d s) =
        (if status_is d ''processing'' then AgentWorking (now s) else Ready))"
  by (simp add: pollStatusUpdate_def finalStatusUpdate_def)

theorem status_mapping_sites_agree_witness:
  "status_is [(''status'', JString ''completed''), (''timestamp'', JString ''10:00'')] ''completed'' \<and>
   processingStatusArea
     (finalStatusUpdate [(''status'', JString ''completed''), (''timestamp'', JString ''10:00'')] init)
     = CompletedAt (Some (JString ''10:00'')) \<and>
   processingStatusArea
     (pollStatusUpdate [(''status'', JString ''completed''), (''timestamp'', JString ''10:00'')] init)
     = CompletedAt (Some (JString ''10:00'')) \<and>
   \<not> status_is [(''status'', JString ''unknown'')] ''completed'' \<and>
   \<not> status_is [(''status'', JString ''unknown'')] ''failed'' \<and>
   processingStatusArea (finalStatusUpdate [(''status'', JString ''unknown'')] init) = NoStatus \<and>
   processingStatusArea (pollStatusUpdate [(''status'', JString ''unknown'')] init) = Ready"
  using status_mapping_sites_agree
          [of "[(''status'', JString ''completed''), (''timestamp'', JString ''10:00'')]" init]
        status_mapping_sites_agree [of "[(''status'', JString ''unknown'')]" init]
  by (simp add: status_is_def timestamp_def init_def)

subsection \<open>Evaluating concrete runs\<close>

lemmas handler_defs =
  sendMessage_def newChat_def downloadClick_def handleFileSelection_def
  readerOnload_def readerOnerror_def fire_def wait_def respond_def resume_def
  runCallback_def pollTick_def finalizeStart_def simulateAIResponse_def
  simulateAIResponseResume_def pollResume_def pollStatusUpdate_def finalResume_def
  finalStatusUpdate_def downloadStatusResume_def downloadProbeResume_def downloadDone_def
  startProcessingFlow_def createMessageElement_def removeChild_def setInterval_def
  setTimeout_def clearInterval_def fetch_def alert_def rearm_def status_is_def timestamp_def
  Let_def

lemma run_Nil [simp]: "run v s [] = s"
  by (simp add: run_def)

lemma run_Cons [simp]: "run v s (e # es) = run v (step v s e) es"
  by (simp add: run_def)

lemma run_append: "run v s (xs @ ys) = run v (run v s xs) ys"
  by (simp add: run_def)

lemma trim_hi [simp]: "trim ''hi'' = ''hi''"
  by code_simp

lemma after_send:
  "run v init [Input ''hi'', Send] =
   \<lparr> chatWindow = [(0, Welcome), (1, UserText ''hi''), (2, RequestSent), (3, Typing)],
     welcomeDisplay = False, chatInput = [], downloadOutputBtn = False,
     processingStatusArea = Preparing,
     flows = [\<lparr> userPrompt = Some ''hi'', fileDataBase64 = None, initialResponseElement = 2,
               typingIndicator = 3, processingDone = False, checkStatusInterval = 4,
               submittedAt = 0 \<rparr>],
     timers = [Timer 4 2000 (Some 2000) (PollTick 0), Timer 5 5000 None (Finalize 0)],
     pending = [], readers = [], fresh = 6, now = 0, requests = [], alerts = [],
     navigations = [], unhandled = 0, lastReconciled = None \<rparr>"
  by (simp add: handler_defs init_def)

lemma after_finalize:
  "run v init [Input ''hi'', Send, Fire, Fire, Fire] =
   \<lparr> chatWindow = [(0, Welcome), (1, UserText ''hi'')],
     welcomeDisplay = False, chatInput = [], downloadOutputBtn = False,
     processingStatusArea = Preparing,
     flows = [\<lparr> userPrompt = Some ''hi'', fileDataBase64 = None, initialResponseElement = 2,
               typingIndicator = 3, processingDone = True, checkStatusInterval = 4,
               submittedAt = 0 \<rparr>],
     timers = [],
     pending = [(6, PollStatus 0), (7, PollStatus 0), (8, SubmitPost 0)],
     readers = [], fresh = 9, now = 5000,
     requests = [(2000, CheckStatus, PollStatus 0), (4000, CheckStatus, PollStatus 0),
                 (5000, ProcessPrompt (Some ''hi'') None, SubmitPost 0)],
     alerts = [], navigations = [], unhandled = 0, lastReconciled = None \<rparr>"
  by (simp add: handler_defs init_def)

subsection \<open>A failed submission\<close>

text \<open>
  C7, as stated, fails: the POST is rejected, the error bubble is rendered, and the
  reconciliation that follows still shows the download button when
  \<^verbatim>\<open>check_status\<close> answers \<^verbatim>\<open>completed\<close>.
\<close>

theorem submit_failure_then_download_enabled:
  "transportError NetworkError \<and>
   chatWindow (run Part_000 init [Input ''hi'', Send, Fire, Fire, Fire, Respond 8 NetworkError])
     = [(0, Welcome), (1, UserText ''hi''), (9, BackendFailure)] \<and>
   downloadOutputBtn (run Part_000 init [Input ''hi'', Send, Fire, Fire, Fire,
       Respond 8 NetworkError,
       Respond 10 (Http True (Some [(''status'', JString ''completed'')]))])"
  by (simp add: handler_defs init_def transportError_def)

text \<open>
  C7, amended. When the finalize-time POST fails (the request is rejected, the response
  is not ok, or its body does not parse), the error bubble is appended to the chat and
  handling the failure leaves the download button as it was. The script then goes on to
  the final \<^verbatim>\<open>check_status\<close> request all the same, and that reconciliation shows the
  download button whenever it reads \<^verbatim>\<open>completed\<close>.
\<close>

theorem submit_failure_renders_error:
  "map_of (pending s) i = Some (SubmitPost j) \<Longrightarrow> transportError r \<Longrightarrow>
   chatWindow (step v s (Respond i r)) = chatWindow s @ [(fresh s, BackendFailure)] \<and>
   downloadOutputBtn (step v s (Respond i r)) = downloadOutputBtn s \<and>
   requests (step v s (Respond i r)) = requests s @ [(now s, CheckStatus, FinalStatus j)] \<and>
   pending (step v s (Respond i r)) =
     remove1 (i, SubmitPost j) (pending s) @ [(Suc (fresh s), FinalStatus j)] \<and>
   (status_is d ''completed'' \<longrightarrow> downloadOutputBtn (finalResume (Http ok (Some d)) s'))"
  by (cases r)
     (auto simp: respond_pending resume_def transportError_def simulateAIResponseResume_def
        finalResume_def finalStatusUpdate_def split: option.splits bool.splits)

theorem submit_failure_renders_error_witness:
  "map_of (pending (run Part_000 init [Input ''hi'', Send, Fire, Fire, Fire])) 8
     = Some (SubmitPost 0) \<and>
   transportError (Http False None) \<and>
   chatWindow (step Part_000 (run Part_000 init [Input ''hi'', Send, Fire, Fire, Fire])
       (Respond 8 (Http False None)))
     = [(0, Welcome), (1, UserText ''hi''), (9, BackendFailure)] \<and>
   \<not> downloadOutputBtn (step Part_000 (run Part_000 init [Input ''hi'', Send, Fire, Fire, Fire])
       (Respond 8 (Http False None))) \<and>
   status_is [(''status'', JString ''completed'')] ''completed'' \<and>
   downloadOutputBtn (finalResume (Http True (Some [(''status'', JString ''completed'')])) init)"
proof -
  have a: "map_of (pending (run Part_000 init [Input ''hi'', Send, Fire, Fire, Fire])) 8
     = Some (SubmitPost 0)"
    by (simp only: after_finalize) simp
  have b: "transportError (Http False None)"
    by (simp add: transportError_def)
  have c: "chatWindow (run Part_000 init [Input ''hi'', Send, Fire, Fire, Fire])
      = [(0, Welcome), (1, UserText ''hi'')]"
    "fresh (run Part_000 init [Input ''hi'', Send, Fire, Fire, Fire]) = 9"
    "\<not> downloadOutputBtn (run Part_000 init [Input ''hi'', Send, Fire, Fire, Fire])"
    by (simp_all only: after_finalize) simp_all
  have d: "status_is [(''status'', JString ''completed'')] ''completed''"
    by (simp add: status_is_def)
  show ?thesis
    using a b c d
      submit_failure_renders_error [OF a b, where v = Part_000
        and d = "[(''status'', JString ''completed'')]" and ok = True and s' = init]
    by simp
qed

subsection \<open>Errors of the final status fetch\<close>

text \<open>
  C9 does not hold of the post-finalize \<^verbatim>\<open>check_status\<close> fetch: it sits outside any
  \<^verbatim>\<open>try\<close>, unlike the poll tick, \<^verbatim>\<open>simulateAIResponse\<close> and the download handler.
  When that request is rejected, the rejection is handled by nobody, and the page shows
  no dialog, no chat bubble and no new status text.
\<close>

theorem final_status_fetch_uncaught:
  "map_of (pending (run Part_000 init [Input ''hi'', Send, Fire, Fire, Fire,
      Respond 8 (Http True (Some [(''ai_response_text'', JString ''ok'')]))])) 10
     = Some (FinalStatus 0) \<and>
   unhandled (run Part_000 init [Input ''hi'', Send, Fire, Fire, Fire,
      Respond 8 (Http True (Some [(''ai_response_text'', JString ''ok'')])),
      Respond 10 NetworkError]) = 1 \<and>
   alerts (run Part_000 init [Input ''hi'', Send, Fire, Fire, Fire,
      Respond 8 (Http True (Some [(''ai_response_text'', JString ''ok'')])),
      Respond 10 NetworkError]) = [] \<and>
   chatWindow (run Part_000 init [Input ''hi'', Send, Fire, Fire, Fire,
      Respond 8 (Http True (Some [(''ai_response_text'', JString ''ok'')])),
      Respond 10 NetworkError])
     = [(0, Welcome), (1, UserText ''hi''), (9, AiFormatted ''ok'')] \<and>
   processingStatusArea (run Part_000 init [Input ''hi'', Send, Fire, Fire, Fire,
      Respond 8 (Http True (Some [(''ai_response_text'', JString ''ok'')])),
      Respond 10 NetworkError]) = Preparing"
  by (simp add: handler_defs init_def)

subsection \<open>New chat while a job is running\<close>

text \<open>
  C3, as stated, fails: after a reset in the middle of a job both timers are still armed,
  the next poll answer rewrites the status text, and the backend's answer is appended to
  the new chat.
\<close>

theorem reset_job_keeps_running:
  "processingStatusArea (run Part_000 init [Input ''hi'', Send, NewChat]) = NoStatus \<and>
   chatWindow (run Part_000 init [Input ''hi'', Send, NewChat]) = [(0, Welcome)] \<and>
   timers (run Part_000 init [Input ''hi'', Send, NewChat])
     = [Timer 4 2000 (Some 2000) (PollTick 0), Timer 5 5000 None (Finalize 0)] \<and>
   processingStatusArea (run Part_000 init [Input ''hi'', Send, NewChat, Fire,
       Respond 6 (Http True (Some [(''status'', JString ''processing'')]))])
     = AgentWorking 2000 \<and>
   chatWindow (run Part_000 init [Input ''hi'', Send, NewChat, Fire,
       Respond 6 (Http True (Some [(''status'', JString ''processing'')])), Fire, Fire,
       Respond 8 (Http True (Some [(''ai_response_text'', JString ''ok'')]))])
     = [(0, Welcome), (9, AiFormatted ''ok'')]"
  by (simp add: handler_defs init_def)

text \<open>
  C3, amended. The new-chat action empties the chat down to the welcome message, shows the
  welcome message, empties the input field, hides the download button and clears the
  status text. It cancels no timer and drops no request in flight: the timers, the
  suspended handlers and the closures of a running job are what they were.
\<close>

theorem newChat_keeps_timers:
  "timers (step v s NewChat) = timers s \<and> pending (step v s NewChat) = pending s \<and>
   flows (step v s NewChat) = flows s \<and>
   chatWindow (step v s NewChat) = [(0, Welcome)] \<and> welcomeDisplay (step v s NewChat) \<and>
   chatInput (step v s NewChat) = [] \<and> \<not> downloadOutputBtn (step v s NewChat) \<and>
   processingStatusArea (step v s NewChat) = NoStatus"
  by (simp add: newChat_def)

subsection \<open>File validation\<close>

text \<open>
  C6 does not hold of \<^verbatim>\<open>handleFileSelection\<close> in \<^verbatim>\<open>src/script.js\<close>, which checks the
  size only: a 1 MiB \<^verbatim>\<open>setup.exe\<close> raises no dialog, is read, and after the five
  seconds is posted to \<^verbatim>\<open>process_prompt\<close>. The revision in part_000 has the check.
\<close>

theorem script_js_accepts_exe:
  "alerts (step Script_js init (FileChange (Some \<lparr>name = ''setup.exe'', fsize = 1048576\<rparr>))) = [] \<and>
   readers (step Script_js init (FileChange (Some \<lparr>name = ''setup.exe'', fsize = 1048576\<rparr>)))
     = [(1, \<lparr>name = ''setup.exe'', fsize = 1048576\<rparr>)] \<and>
   requests (run Script_js init
       [FileChange (Some \<lparr>name = ''setup.exe'', fsize = 1048576\<rparr>),
        FileLoad 1 ''data:application/octet-stream;base64,TVo='', Fire, Fire, Fire])
     = [(2000, CheckStatus, PollStatus 0), (4000, CheckStatus, PollStatus 0),
        (5000, ProcessPrompt None (Some ''TVo=''), SubmitPost 0)]"
  by (simp add: handler_defs init_def base64Data_def)

text \<open>
  The extension test of part_000 accepts exactly the names that end, ignoring case, in one
  of the three allowed extensions.
\<close>

lemma lastIndexOf_absent: "c \<notin> set xs \<Longrightarrow> lastIndexOf xs c = -1"
  by (induction xs) (auto simp: Let_def)

lemma lastIndexOf_last:
  "c \<notin> set suf \<Longrightarrow> lastIndexOf (pre @ c # suf) c = int (length pre)"
  by (induction pre) (auto simp: Let_def lastIndexOf_absent)

lemma lower_char_dot: "lower_char c = CHR ''.'' \<longleftrightarrow> c = CHR ''.''"
proof
  assume l: "lower_char c = CHR ''.''"
  show "c = CHR ''.''"
  proof (rule ccontr)
    assume ne: "c \<noteq> CHR ''.''"
    let ?n = "of_char c :: nat"
    from l ne have up: "(65 \<le> ?n \<and> ?n \<le> 90) \<or> (192 \<le> ?n \<and> ?n \<le> 222 \<and> ?n \<noteq> 215)"
      and eq: "char_of (?n + 32) = CHR ''.''"
      by (auto simp: lower_char_def Let_def split: if_splits)
    from up have small: "?n + 32 < 256" by auto
    from eq have "(of_char (char_of (?n + 32) :: char) :: nat) = of_char (CHR ''.'')"
      by (rule arg_cong)
    with small have "?n + 32 = 46"
      by simp
    with up show False by auto
  qed
next
  assume "c = CHR ''.''"
  then show "lower_char c = CHR ''.''"
    by (simp add: lower_char_def)
qed

lemma lower_char_dot': "CHR ''.'' = lower_char c \<longleftrightarrow> c = CHR ''.''"
  using lower_char_dot [of c] by auto

lemma fileExtension_dot:
  "CHR ''.'' \<notin> set suf \<Longrightarrow>
   fileExtension (pre @ CHR ''.'' # suf) = CHR ''.'' # toLowerCase suf"
  by (simp add: fileExtension_def substring_def lastIndexOf_last toLowerCase_def lower_char_dot)

lemma fileExtension_nodot:
  "CHR ''.'' \<notin> set nm \<Longrightarrow> fileExtension nm = toLowerCase nm"
  by (simp add: fileExtension_def substring_def lastIndexOf_absent)

lemma allowed_shape:
  "e \<in> set allowedExtensions \<Longrightarrow> \<exists>r. e = CHR ''.'' # r \<and> CHR ''.'' \<notin> set r"
  by (auto simp: allowedExtensions_def)

lemma toLowerCase_dot_free:
  "CHR ''.'' \<notin> set (toLowerCase xs) \<longleftrightarrow> CHR ''.'' \<notin> set xs"
  by (induction xs) (auto simp: toLowerCase_def lower_char_dot')

lemma ext_suffix_1:
  assumes a: "fileExtension nm \<in> set allowedExtensions"
  shows "\<exists>e \<in> set allowedExtensions. \<exists>pre. toLowerCase nm = pre @ e"
proof (cases "CHR ''.'' \<in> set nm")
  case True
  then obtain pre suf where nm: "nm = pre @ CHR ''.'' # suf" and s: "CHR ''.'' \<notin> set suf"
    using split_list_last [of "CHR ''.''" nm] by blast
  have "fileExtension nm = CHR ''.'' # toLowerCase suf"
    unfolding nm using s by (rule fileExtension_dot)
  moreover have "toLowerCase nm = toLowerCase pre @ CHR ''.'' # toLowerCase suf"
    unfolding nm by (simp add: toLowerCase_def lower_char_dot)
  ultimately have "toLowerCase nm = toLowerCase pre @ fileExtension nm"
    by (simp only:)
  with a show ?thesis by (intro bexI exI)
next
  case False
  then have "toLowerCase nm = [] @ fileExtension nm"
    by (simp add: fileExtension_nodot)
  with a show ?thesis by (intro bexI exI)
qed

lemma lastIndexOf_lower:
  "map lower_char nm = pre @ CHR ''.'' # r \<Longrightarrow> CHR ''.'' \<notin> set r \<Longrightarrow>
   lastIndexOf nm (CHR ''.'') = int (length pre)"
proof (induction pre arbitrary: nm)
  case Nil
  then obtain c s where nm: "nm = c # s" and c: "lower_char c = CHR ''.''"
    and s: "map lower_char s = r"
    by (cases nm) auto
  from s Nil.prems(2) have "CHR ''.'' \<notin> set (toLowerCase s)"
    by (simp add: toLowerCase_def)
  then have "CHR ''.'' \<notin> set s"
    by (simp add: toLowerCase_dot_free)
  then have "lastIndexOf s (CHR ''.'') = -1"
    by (rule lastIndexOf_absent)
  moreover from c have "c = CHR ''.''"
    by (simp add: lower_char_dot)
  ultimately show ?case
    by (simp add: nm)
next
  case (Cons a pre)
  then obtain c s where nm: "nm = c # s" and s: "map lower_char s = pre @ CHR ''.'' # r"
    by (cases nm) auto
  from Cons.IH [OF s Cons.prems(2)] show ?case
    by (simp add: nm)
qed

lemma ext_suffix_2:
  assumes e: "e \<in> set allowedExtensions" and l: "toLowerCase nm = pre @ e"
  shows "fileExtension nm \<in> set allowedExtensions"
proof -
  from allowed_shape [OF e] obtain r where r: "e = CHR ''.'' # r" "CHR ''.'' \<notin> set r"
    by blast
  from l r(1) have m: "map lower_char nm = pre @ CHR ''.'' # r"
    by (simp add: toLowerCase_def)
  have "fileExtension nm = drop (length pre) (map lower_char nm)"
    by (simp add: fileExtension_def substring_def toLowerCase_def drop_map
        lastIndexOf_lower [OF m r(2)])
  also have "\<dots> = e"
    by (simp add: m r(1))
  finally show ?thesis
    using e by simp
qed

lemma fileExtension_allowed_iff:
  "fileExtension nm \<in> set allowedExtensions \<longleftrightarrow>
   (\<exists>e \<in> set allowedExtensions. \<exists>pre. toLowerCase nm = pre @ e)"
  using ext_suffix_1 ext_suffix_2 by blast

lemma handleFileSelection_part_000:
  "step Part_000 s (FileChange (Some f)) =
     (if \<not> (\<exists>e \<in> set allowedExtensions. \<exists>pre. toLowerCase (name f) = pre @ e)
      then alert BadFormat s
      else if fsize f > 5 * 1024 * 1024 then alert TooLarge s
      else s\<lparr> readers := readers s @ [(fresh s, f)], fresh := Suc (fresh s) \<rparr>)"
  using fileExtension_allowed_iff [of "name f"] by (simp add: handleFileSelection_def)

lemma handleFileSelection_rejects_extension:
  "fileExtension (name f) \<notin> set allowedExtensions \<Longrightarrow>
   step Part_000 s (FileChange (Some f)) = alert BadFormat s"
  by (simp add: handleFileSelection_def)

lemma handleFileSelection_rejects_large:
  "fsize f > 5 * 1024 * 1024 \<Longrightarrow>
   step v s (FileChange (Some f)) =
     alert (if v = Part_000 \<and> fileExtension (name f) \<notin> set allowedExtensions
            then BadFormat else TooLarge) s"
  by (simp add: handleFileSelection_def)

lemma handleFileSelection_accepts:
  "fileExtension (name f) \<in> set allowedExtensions \<Longrightarrow> fsize f \<le> 5 * 1024 * 1024 \<Longrightarrow>
   step v s (FileChange (Some f)) =
     s\<lparr> readers := readers s @ [(fresh s, f)], fresh := Suc (fresh s) \<rparr>"
  by (simp add: handleFileSelection_def)

lemma fileExtension_examples:
  "fileExtension ''report.PDF'' \<in> set allowedExtensions"
  "fileExtension ''setup.exe'' \<notin> set allowedExtensions"
  by code_simp+

subsection \<open>Polling and finalization\<close>

text \<open>
  C2, as stated, fails: the poll request sent at 4 s is still in flight when the finalize
  callback runs at 5 s; its answer arrives afterwards and the poll handler writes the
  status text.
\<close>

theorem poll_response_after_finalize:
  "processingDone (flows (run Part_000 init [Input ''hi'', Send, Fire, Fire, Fire]) ! 0) \<and>
   map_of (pending (run Part_000 init [Input ''hi'', Send, Fire, Fire, Fire])) 7
     = Some (PollStatus 0) \<and>
   processingStatusArea (run Part_000 init [Input ''hi'', Send, Fire, Fire, Fire]) = Preparing \<and>
   processingStatusArea (run Part_000 init [Input ''hi'', Send, Fire, Fire, Fire,
       Respond 7 (Http True (Some [(''status'', JString ''processing'')]))])
     = AgentWorking 5000"
  by (simp add: handler_defs init_def)

subsection \<open>The invariants hold in every reachable state\<close>

lemma timers_ok_init: "timers_ok init"
  by (simp add: timers_ok_def init_def)

lemma timer_ok_frame:
  "timer_ok s t \<Longrightarrow> flows s' = flows s \<Longrightarrow> now s' = now s \<Longrightarrow> fresh s \<le> fresh s' \<Longrightarrow>
   timer_ok s' t"
  by (auto simp: timer_ok_def split: callback.splits)

lemma timers_ok_frame:
  "timers_ok s \<Longrightarrow> timers s' = timers s \<Longrightarrow> flows s' = flows s \<Longrightarrow> now s' = now s \<Longrightarrow>
   fresh s \<le> fresh s' \<Longrightarrow> timers_ok s'"
  unfolding timers_ok_def
  by (auto intro: timer_ok_frame [where s = s])

lemma timer_ok_start:
  assumes "timer_ok s t" "\<forall>j < length (flows s). checkStatusInterval (flows s ! j) < fresh s"
  shows "timer_ok (startProcessingFlow p f s) t"
  using assms
  by (auto simp: timer_ok_def nth_append split: callback.splits)

lemma timers_ok_startProcessingFlow:
  assumes "timers_ok s"
  shows "timers_ok (startProcessingFlow p f s)"
proof -
  from assms have d: "distinct (map tid (timers s))"
    and t: "\<forall>t \<in> set (timers s). timer_ok s t"
    and c: "\<forall>j < length (flows s). checkStatusInterval (flows s ! j) < fresh s"
    by (auto simp: timers_ok_def)
  from t have lt: "\<forall>t \<in> set (timers s). tid t < fresh s"
    by (auto simp: timer_ok_def)
  have 1: "distinct (map tid (timers (startProcessingFlow p f s)))"
    using d lt by auto
  have 2: "\<forall>t \<in> set (timers s). timer_ok (startProcessingFlow p f s) t"
    using t c by (auto intro: timer_ok_start)
  have 3: "timer_ok (startProcessingFlow p f s)
             (Timer (fresh s + 2) (now s + 2000) (Some 2000) (PollTick (length (flows s))))"
    using c by (auto simp: timer_ok_def nth_append)
  have 4: "timer_ok (startProcessingFlow p f s)
             (Timer (fresh s + 3) (now s + 5000) None (Finalize (length (flows s))))"
    using c by (auto simp: timer_ok_def nth_append)
  have 5: "\<forall>j < length (flows (startProcessingFlow p f s)).
             checkStatusInterval (flows (startProcessingFlow p f s) ! j)
               < fresh (startProcessingFlow p f s)"
    using c by (auto simp: nth_append)
  show ?thesis
    unfolding timers_ok_def using 1 2 3 4 5 by auto
qed

lemma earliest_None: "earliest ts = None \<longleftrightarrow> ts = []"
  by (induction ts) (auto split: option.splits)

lemma earliest_Some: "earliest ts = Some t \<Longrightarrow> t \<in> set ts \<and> (\<forall>u \<in> set ts. due t \<le> due u)"
proof (induction ts arbitrary: t)
  case Nil
  then show ?case by simp
next
  case (Cons a ts)
  show ?case
  proof (cases "earliest ts")
    case None
    with Cons.prems show ?thesis by (simp add: earliest_None)
  next
    case (Some u)
    with Cons.IH [of u] Cons.prems show ?thesis
      by (auto split: if_splits)
  qed
qed

lemma tid_rearm: "map tid (rearm t ts) = (case period t of None \<Rightarrow> map tid (filter (\<lambda>u. tid u \<noteq> tid t) ts) | Some p \<Rightarrow> map tid ts)"
  by (auto simp: rearm_def split: option.splits)

lemma distinct_rearm: "distinct (map tid ts) \<Longrightarrow> distinct (map tid (rearm t ts))"
  by (auto simp: tid_rearm distinct_map_filter split: option.splits)

lemma timers_ok_wait: "timers_ok s \<Longrightarrow> timers_ok (wait d s)"
  unfolding timers_ok_def
  by (auto simp: wait_def timer_ok_def earliest_None split: option.splits callback.splits
      dest!: earliest_Some)

lemma timers_ok_tick:
  assumes ok: "timers_ok s" and e: "earliest (timers s) = Some t"
  shows "timers_ok (s\<lparr> now := max (now s) (due t), timers := rearm t (timers s) \<rparr>)"
proof -
  let ?s = "s\<lparr> now := max (now s) (due t), timers := rearm t (timers s) \<rparr>"
  from ok have d: "distinct (map tid (timers s))"
    and tk: "\<forall>u \<in> set (timers s). timer_ok s u"
    and c: "\<forall>j < length (flows s). checkStatusInterval (flows s ! j) < fresh s"
    by (auto simp: timers_ok_def)
  from e have tin: "t \<in> set (timers s)" and least: "\<forall>u \<in> set (timers s). due t \<le> due u"
    using earliest_Some by blast+
  from tk tin have nt: "now s \<le> due t" by (auto simp: timer_ok_def)
  have same: "u = t" if "u \<in> set (timers s)" "tid u = tid t" for u
    using d tin that by (meson distinct_map inj_onD)
  have "timer_ok ?s u" if u: "u \<in> set (rearm t (timers s))" for u
  proof (cases "period t")
    case None
    with u have "u \<in> set (timers s)" by (auto simp: rearm_def)
    with tk least nt show ?thesis
      by (auto simp: timer_ok_def max_def split: callback.splits)
  next
    case (Some p)
    with u obtain w where w: "w \<in> set (timers s)"
      and uw: "u = (if tid w = tid t then Timer (tid w) (due w + p) (period w) (cb w) else w)"
      by (auto simp: rearm_def)
    show ?thesis
    proof (cases "tid w = tid t")
      case True
      with w have "w = t" by (rule same)
      with tk w uw True Some nt show ?thesis
        by (auto simp: timer_ok_def max_def split: callback.splits)
    next
      case False
      with tk w uw least nt show ?thesis
        by (auto simp: timer_ok_def max_def split: callback.splits)
    qed
  qed
  with d c show ?thesis
    by (simp add: timers_ok_def distinct_rearm)
qed

lemma timers_ok_filter:
  assumes "timers_ok s" "timers s' = filter P (timers s)" "flows s' = flows s" "now s' = now s"
    "fresh s \<le> fresh s'"
  shows "timers_ok s'"
proof -
  have "timer_ok s' t" if "t \<in> set (timers s')" for t
  proof -
    from that assms have "timer_ok s t" by (auto simp: timers_ok_def)
    then show ?thesis by (rule timer_ok_frame) (simp_all add: assms)
  qed
  moreover have "distinct (map tid (timers s'))"
    using assms by (simp add: timers_ok_def distinct_map_filter)
  moreover have "\<forall>j < length (flows s'). checkStatusInterval (flows s' ! j) < fresh s'"
    using assms by (auto simp: timers_ok_def)
  ultimately show ?thesis unfolding timers_ok_def by blast
qed

lemma timers_ok_setTimeout:
  assumes "timers_ok s" "c = DownloadDone \<or> c = ClearStatus"
  shows "timers_ok (setTimeout c d s)"
proof -
  from assms have lt: "\<forall>t \<in> set (timers s). tid t < fresh s"
    by (auto simp: timers_ok_def timer_ok_def)
  have "\<forall>t \<in> set (timers s). timer_ok (setTimeout c d s) t"
    using assms(1) by (auto simp: timers_ok_def intro: timer_ok_frame [where s = s])
  moreover have "timer_ok (setTimeout c d s) (Timer (fresh s) (now s + d) None c)"
    using assms by (auto simp: timer_ok_def timers_ok_def)
  ultimately show ?thesis
    using assms(1) lt unfolding timers_ok_def by (auto simp: less_Suc_eq)
qed

lemma timers_ok_fetch: "timers_ok s \<Longrightarrow> timers_ok (fetch ep k s)"
  by (erule timers_ok_frame) simp_all

lemma timers_ok_alert: "timers_ok s \<Longrightarrow> timers_ok (alert d s)"
  by (erule timers_ok_frame) simp_all

lemma timers_ok_createMessageElement: "timers_ok s \<Longrightarrow> timers_ok (createMessageElement m s)"
  by (erule timers_ok_frame) simp_all

lemma timers_ok_pollTick: "timers_ok s \<Longrightarrow> timers_ok (pollTick j s)"
  unfolding pollTick_def
  by (auto intro: timers_ok_fetch
      timers_ok_filter [where s = s and P = "\<lambda>t. tid t \<noteq> checkStatusInterval (flows s ! j)"])

lemma timers_ok_finalizeStart:
  assumes ok: "timers_ok s" and none: "\<forall>u \<in> set (timers s). cb u \<noteq> Finalize j"
  shows "timers_ok (finalizeStart j s)"
proof (cases "j < length (flows s)")
  case False
  then show ?thesis using ok by (simp add: finalizeStart_def)
next
  case True
  let ?f = "flows s ! j"
  let ?s = "finalizeStart j s"
  have tm: "timers ?s = filter (\<lambda>t. tid t \<noteq> checkStatusInterval ?f) (timers s)"
    and fl: "flows ?s = (flows s)[j := ?f\<lparr> processingDone := True \<rparr>]"
    and fr: "fresh ?s = Suc (fresh s)" and nw: "now ?s = now s"
    using True by (simp_all add: finalizeStart_def simulateAIResponse_def Let_def)
  from ok have d: "distinct (map tid (timers s))"
    and tk: "\<forall>u \<in> set (timers s). timer_ok s u"
    and c: "\<forall>j < length (flows s). checkStatusInterval (flows s ! j) < fresh s"
    by (auto simp: timers_ok_def)
  have len: "length (flows ?s) = length (flows s)"
    by (simp add: fl)
  have csi: "checkStatusInterval (flows ?s ! i) = checkStatusInterval (flows s ! i)"
    and sub: "submittedAt (flows ?s ! i) = submittedAt (flows s ! i)"
    and dn: "processingDone (flows ?s ! i) \<longleftrightarrow> i = j \<or> processingDone (flows s ! i)"
    if "i < length (flows s)" for i
    using that True by (auto simp: fl nth_list_update)
  have "timer_ok ?s u" if "u \<in> set (timers ?s)" for u
  proof -
    from that have u: "u \<in> set (timers s)" and ne: "tid u \<noteq> checkStatusInterval ?f"
      by (auto simp: tm)
    from tk u have k: "timer_ok s u" by blast
    from none u have nf: "cb u \<noteq> Finalize j" by blast
    from k have general: "now ?s \<le> due u" "tid u < fresh ?s"
      "\<forall>i < length (flows ?s). tid u = checkStatusInterval (flows ?s ! i) \<longrightarrow> cb u = PollTick i"
      by (simp_all add: timer_ok_def nw fr len csi)
    have special: "case cb u of
        PollTick i \<Rightarrow> i < length (flows ?s) \<and> tid u = checkStatusInterval (flows ?s ! i) \<and>
                      \<not> processingDone (flows ?s ! i)
      | Finalize i \<Rightarrow> i < length (flows ?s) \<and> \<not> processingDone (flows ?s ! i) \<and>
                      tid u = Suc (checkStatusInterval (flows ?s ! i)) \<and>
                      period u = None \<and> due u = submittedAt (flows ?s ! i) + 5000
      | DownloadDone \<Rightarrow> True
      | ClearStatus \<Rightarrow> True"
    proof (cases "cb u")
      case (PollTick i)
      with k have i: "i < length (flows s)" "tid u = checkStatusInterval (flows s ! i)"
        "\<not> processingDone (flows s ! i)"
        by (simp_all add: timer_ok_def)
      with ne have "i \<noteq> j" by auto
      with i PollTick show ?thesis by (simp add: len csi dn)
    next
      case (Finalize i)
      with k have i: "i < length (flows s)" "tid u = Suc (checkStatusInterval (flows s ! i))"
        "\<not> processingDone (flows s ! i)" "period u = None"
        "due u = submittedAt (flows s ! i) + 5000"
        by (simp_all add: timer_ok_def)
      from nf Finalize have "i \<noteq> j" by auto
      with i Finalize show ?thesis by (simp add: len csi dn sub)
    qed simp_all
    from general special show ?thesis
      unfolding timer_ok_def by blast
  qed
  moreover have "\<forall>i < length (flows ?s). checkStatusInterval (flows ?s ! i) < fresh ?s"
    using c by (auto simp: len csi fr)
  moreover have "distinct (map tid (timers ?s))"
    using d by (simp add: tm distinct_map_filter)
  ultimately show ?thesis
    unfolding timers_ok_def by blast
qed

lemma timers_ok_fire:
  assumes ok: "timers_ok s"
  shows "timers_ok (fire v s)"
proof (cases "earliest (timers s)")
  case None
  then show ?thesis using ok by (simp add: fire_def)
next
  case (Some t)
  let ?s = "s\<lparr> now := max (now s) (due t), timers := rearm t (timers s) \<rparr>"
  have ok1: "timers_ok ?s"
    using ok Some by (rule timers_ok_tick)
  have fire: "fire v s = runCallback v (cb t) ?s"
    using Some by (simp add: fire_def)
  show ?thesis
  proof (cases "cb t")
    case (PollTick j)
    then show ?thesis using ok1 fire by (simp add: runCallback_def timers_ok_pollTick)
  next
    case (Finalize j)
    from Some have tin: "t \<in> set (timers s)" using earliest_Some by blast
    from ok tin Finalize have pt: "period t = None"
      and tt: "tid t = Suc (checkStatusInterval (flows s ! j))"
      by (auto simp: timers_ok_def timer_ok_def)
    have "cb u \<noteq> Finalize j" if "u \<in> set (timers ?s)" for u
    proof
      assume cu: "cb u = Finalize j"
      from that pt have u: "u \<in> set (timers s)" and ne: "tid u \<noteq> tid t"
        by (auto simp: rearm_def)
      from ok u cu have "tid u = Suc (checkStatusInterval (flows s ! j))"
        by (auto simp: timers_ok_def timer_ok_def)
      with tt ne show False by simp
    qed
    then show ?thesis
      using ok1 fire Finalize by (simp add: runCallback_def timers_ok_finalizeStart)
  next
    case DownloadDone
    have "timers_ok (?s\<lparr> processingStatusArea := Downloaded \<rparr>)"
      using ok1 by (rule timers_ok_frame) simp_all
    then show ?thesis
      using fire DownloadDone
      by (cases v) (simp_all add: runCallback_def downloadDone_def Let_def timers_ok_setTimeout)
  next
    case ClearStatus
    then show ?thesis
      using ok1 fire by (auto simp: runCallback_def intro: timers_ok_frame [where s = "?s"])
  qed
qed

lemma timers_ok_resume:
  assumes ok: "timers_ok s"
  shows "timers_ok (resume v k r s)"
proof (cases k)
  case (PollStatus j)
  then show ?thesis using ok by (auto simp: resume_def intro: timers_ok_frame [where s = s])
next
  case (SubmitPost j)
  have "timers_ok (simulateAIResponseResume v r s)"
    using ok by (rule timers_ok_frame) simp_all
  then show ?thesis using SubmitPost by (simp add: resume_def timers_ok_fetch)
next
  case (FinalStatus j)
  then show ?thesis using ok by (auto simp: resume_def intro: timers_ok_frame [where s = s])
next
  case DownloadStatus
  then show ?thesis
    using ok by (cases r) (auto simp: resume_def downloadStatusResume_def
        intro: timers_ok_alert timers_ok_fetch split: option.splits)
next
  case DownloadProbe
  have "timers_ok (s\<lparr> processingStatusArea := Downloading, navigations := navigations s @ [now s] \<rparr>)"
    using ok by (rule timers_ok_frame) simp_all
  then show ?thesis
    using DownloadProbe ok by (cases r) (auto simp: resume_def downloadProbeResume_def
        intro: timers_ok_alert timers_ok_setTimeout split: option.splits)
qed

lemma timers_ok_step:
  assumes ok: "timers_ok s"
  shows "timers_ok (step v s e)"
proof (cases e)
  case (Input t)
  then show ?thesis using ok by (auto intro: timers_ok_frame [where s = s])
next
  case Send
  have "timers_ok ((createMessageElement (UserText (trim (chatInput s)))
                   (s\<lparr> welcomeDisplay := False \<rparr>))\<lparr> chatInput := [] \<rparr>)"
    using ok by (rule timers_ok_frame) simp_all
  then show ?thesis
    using Send ok by (simp add: sendMessage_def Let_def timers_ok_startProcessingFlow)
next
  case NewChat
  then show ?thesis using ok by (auto intro: timers_ok_frame [where s = s])
next
  case Download
  then show ?thesis using ok by (simp add: downloadClick_def timers_ok_fetch)
next
  case (FileChange fo)
  then show ?thesis
    using ok by (auto simp: handleFileSelection_def
        intro: timers_ok_alert timers_ok_frame [where s = s] split: option.splits)
next
  case (FileLoad i url)
  show ?thesis
  proof (cases "map_of (readers s) i")
    case None
    then show ?thesis using FileLoad ok by (simp add: readerOnload_def)
  next
    case (Some f)
    have "timers_ok (createMessageElement (FileUpload (name f) (fsize f))
               (s\<lparr> readers := remove1 (i, f) (readers s) \<rparr>))"
      using ok by (rule timers_ok_frame) simp_all
    then show ?thesis
      using FileLoad Some by (simp add: readerOnload_def timers_ok_startProcessingFlow)
  qed
next
  case (FileError i)
  then show ?thesis using ok by (auto intro: timers_ok_frame [where s = s])
next
  case Fire
  then show ?thesis using ok by (simp add: timers_ok_fire)
next
  case (Wait d)
  then show ?thesis using ok by (simp add: timers_ok_wait)
next
  case (Respond i r)
  show ?thesis
  proof (cases "map_of (pending s) i")
    case None
    then show ?thesis using Respond ok by (simp add: respond_def)
  next
    case (Some k)
    have "timers_ok (s\<lparr> pending := remove1 (i, k) (pending s) \<rparr>)"
      using ok by (rule timers_ok_frame) simp_all
    then show ?thesis
      using Respond Some by (simp add: respond_def timers_ok_resume)
  qed
qed

lemma log_ok_init: "log_ok init"
  by (simp add: log_ok_def init_def)

lemma filter_remove1_other: "\<not> P x \<Longrightarrow> filter P (remove1 x xs) = filter P xs"
  by (induction xs) auto

lemma length_filter_remove1:
  "x \<in> set xs \<Longrightarrow> P x \<Longrightarrow> Suc (length (filter P (remove1 x xs))) = length (filter P xs)"
  by (induction xs) auto

lemma request_ok_cong:
  "length (flows s') = length (flows s) \<Longrightarrow> request_ok s' q = request_ok s q"
  by (simp add: request_ok_def split: continuation.splits)

lemma flow_ok_cong:
  "requests s' = requests s \<Longrightarrow> pending s' = pending s \<Longrightarrow>
   finalizeTimers j s' = finalizeTimers j s \<Longrightarrow> flows s' ! j = flows s ! j \<Longrightarrow>
   flow_ok s' j = flow_ok s j"
  by (simp add: flow_ok_def posts_def finals_def postsInFlight_def)

lemma log_ok_frame:
  assumes "log_ok s" "requests s' = requests s" "pending s' = pending s"
    "timers s' = timers s" "flows s' = flows s"
  shows "log_ok s'"
proof -
  have "flow_ok s' j = flow_ok s j" for j
    by (rule flow_ok_cong) (simp_all add: assms finalizeTimers_def)
  moreover have "request_ok s' q = request_ok s q" for q
    by (rule request_ok_cong) (simp add: assms)
  ultimately show ?thesis
    using assms by (simp add: log_ok_def)
qed

text \<open>Removing a suspended handler that is not a POST.\<close>

lemma log_ok_settle:
  assumes ok: "log_ok s" and k: "\<forall>j. k \<noteq> SubmitPost j"
  shows "log_ok (s\<lparr> pending := remove1 (i, k) (pending s) \<rparr>)"
proof -
  let ?s = "s\<lparr> pending := remove1 (i, k) (pending s) \<rparr>"
  have "postsInFlight j ?s = postsInFlight j s" for j
    using k by (simp add: postsInFlight_def filter_remove1_other)
  then have "flow_ok ?s j = flow_ok s j" for j
    by (simp add: flow_ok_def posts_def finals_def finalizeTimers_def)
  moreover have "set (pending ?s) \<subseteq> set (pending s)"
    by (simp add: set_remove1_subset)
  moreover have "request_ok ?s q = request_ok s q" for q
    by (rule request_ok_cong) simp
  ultimately show ?thesis
    using ok unfolding log_ok_def by auto
qed

text \<open>Sending a request that is not a POST and not the final status fetch.\<close>

lemma log_ok_fetch:
  assumes ok: "log_ok s" and ep: "\<not> isPost ep"
    and k: "\<forall>j. k \<noteq> SubmitPost j" "\<forall>j. k \<noteq> FinalStatus j"
  shows "log_ok (fetch ep k s)"
proof -
  have "flow_ok (fetch ep k s) j = flow_ok s j" for j
    using k by (simp add: flow_ok_def posts_def finals_def finalizeTimers_def postsInFlight_def)
  moreover have "request_ok (fetch ep k s) (now s, ep, k)"
    using ep k by (cases k) (simp_all add: request_ok_def)
  moreover have "request_ok (fetch ep k s) q = request_ok s q" for q
    by (rule request_ok_cong) simp
  ultimately show ?thesis
    using ok k by (auto simp: log_ok_def)
qed

lemma log_ok_alert: "log_ok s \<Longrightarrow> log_ok (alert d s)"
  by (erule log_ok_frame) simp_all

lemma log_ok_createMessageElement: "log_ok s \<Longrightarrow> log_ok (createMessageElement m s)"
  by (erule log_ok_frame) simp_all

text \<open>Arming a timer that is not a finalize timer.\<close>

lemma log_ok_setTimeout:
  assumes ok: "log_ok s" and c: "\<forall>j. c \<noteq> Finalize j"
  shows "log_ok (setTimeout c d s)"
proof -
  have "flow_ok (setTimeout c d s) j = flow_ok s j" for j
    by (rule flow_ok_cong) (simp_all add: finalizeTimers_def c)
  moreover have "request_ok (setTimeout c d s) q = request_ok s q" for q
    by (rule request_ok_cong) simp
  ultimately show ?thesis
    using ok by (simp add: log_ok_def)
qed

lemma request_ok_mono:
  "request_ok s q \<Longrightarrow> length (flows s) \<le> length (flows s') \<Longrightarrow> request_ok s' q"
  by (auto simp: request_ok_def split: continuation.splits)

lemma log_ok_startProcessingFlow:
  assumes ok: "log_ok s" and tk: "timers_ok s"
  shows "log_ok (startProcessingFlow p f s)"
proof -
  let ?s = "startProcessingFlow p f s"
  let ?n = "length (flows s)"
  have len: "length (flows ?s) = Suc ?n" by simp
  from ok have rq: "\<forall>q \<in> set (requests s). request_ok s q"
    and pd: "\<forall>p \<in> set (pending s). \<forall>j. snd p = SubmitPost j \<longrightarrow> j < ?n"
    and fl: "\<forall>j < ?n. flow_ok s j"
    by (auto simp: log_ok_def)
  have nofin: "cb t \<noteq> Finalize ?n" if "t \<in> set (timers s)" for t
    using tk that by (auto simp: timers_ok_def timer_ok_def)
  have old: "flow_ok ?s j" if "j < ?n" for j
  proof -
    have "flow_ok ?s j = flow_ok s j"
      using that by (intro flow_ok_cong) (simp_all add: finalizeTimers_def nth_append)
    with fl that show ?thesis by simp
  qed
  have "posts ?n ?s = []"
    using rq by (auto simp: posts_def request_ok_def filter_empty_conv)
  moreover have "finals ?n ?s = []"
    using rq by (auto simp: finals_def request_ok_def filter_empty_conv)
  moreover have "postsInFlight ?n ?s = []"
    using pd by (auto simp: postsInFlight_def filter_empty_conv)
  moreover have "filter (\<lambda>t. cb t = Finalize ?n) (timers s) = []"
    using nofin by (auto simp: filter_empty_conv)
  then have "length (finalizeTimers ?n ?s) = 1"
    by (simp add: finalizeTimers_def)
  ultimately have new: "flow_ok ?s ?n"
    by (simp add: flow_ok_def)
  have "flow_ok ?s j" if "j < Suc ?n" for j
    using that old new by (cases "j = ?n") auto
  moreover have "\<forall>q \<in> set (requests ?s). request_ok ?s q"
    using rq by (auto intro: request_ok_mono [where s = s])
  moreover have "\<forall>p \<in> set (pending ?s). \<forall>j. snd p = SubmitPost j \<longrightarrow> j < length (flows ?s)"
    using pd by (auto simp: less_Suc_eq)
  ultimately show ?thesis
    unfolding log_ok_def len by blast
qed

lemma filter_map_same:
  "(\<And>u. u \<in> set ts \<Longrightarrow> (P (f u) \<longleftrightarrow> P u) \<and> (P u \<longrightarrow> f u = u)) \<Longrightarrow>
   filter P (map f ts) = filter P ts"
  by (induction ts) auto

lemma same_tid:
  "distinct (map tid ts) \<Longrightarrow> t \<in> set ts \<Longrightarrow> u \<in> set ts \<Longrightarrow> tid u = tid t \<Longrightarrow> u = t"
  by (meson distinct_map inj_onD)

text \<open>Firing a timer that is not a finalize timer leaves the finalize timers alone.\<close>

lemma finalizeTimers_rearm:
  assumes d: "distinct (map tid ts)" and tin: "t \<in> set ts" and c: "cb t \<noteq> Finalize j"
  shows "filter (\<lambda>u. cb u = Finalize j) (rearm t ts) = filter (\<lambda>u. cb u = Finalize j) ts"
proof (cases "period t")
  case None
  have "filter (\<lambda>u. cb u = Finalize j) (filter (\<lambda>u. tid u \<noteq> tid t) ts)
      = filter (\<lambda>u. cb u = Finalize j) ts"
    unfolding filter_filter
    by (rule filter_cong) (use same_tid [OF d tin] c in auto)
  with None show ?thesis by (simp add: rearm_def)
next
  case (Some p)
  have "filter (\<lambda>u. cb u = Finalize j)
          (map (\<lambda>u. if tid u = tid t then Timer (tid u) (due u + p) (period u) (cb u) else u) ts)
      = filter (\<lambda>u. cb u = Finalize j) ts"
    by (rule filter_map_same) (use same_tid [OF d tin] c in auto)
  with Some show ?thesis by (simp add: rearm_def)
qed

lemma log_ok_tick:
  assumes ok: "log_ok s" and tk: "timers_ok s" and e: "earliest (timers s) = Some t"
    and c: "\<forall>j. cb t \<noteq> Finalize j"
  shows "log_ok (s\<lparr> now := max (now s) (due t), timers := rearm t (timers s) \<rparr>)"
proof -
  let ?s = "s\<lparr> now := max (now s) (due t), timers := rearm t (timers s) \<rparr>"
  from tk have d: "distinct (map tid (timers s))" by (simp add: timers_ok_def)
  from e have tin: "t \<in> set (timers s)" using earliest_Some by blast
  have "flow_ok ?s j = flow_ok s j" for j
    by (rule flow_ok_cong) (simp_all add: finalizeTimers_def finalizeTimers_rearm [OF d tin] c)
  moreover have "request_ok ?s q = request_ok s q" for q
    by (rule request_ok_cong) simp
  ultimately show ?thesis
    using ok by (simp add: log_ok_def)
qed

text \<open>Cancelling the poll interval of a flow leaves the finalize timers alone.\<close>

lemma finalizeTimers_clearInterval:
  assumes tk: "timers_ok s" and j: "j < length (flows s)"
  shows "finalizeTimers i (clearInterval (checkStatusInterval (flows s ! j)) s) = finalizeTimers i s"
proof -
  have "cb u \<noteq> Finalize i" if "u \<in> set (timers s)" "tid u = checkStatusInterval (flows s ! j)" for u
    using tk j that by (auto simp: timers_ok_def timer_ok_def)
  then show ?thesis
    unfolding finalizeTimers_def clearInterval_simps filter_filter
    by (intro filter_cong) auto
qed

lemma log_ok_pollTick:
  assumes ok: "log_ok s" and tk: "timers_ok s"
  shows "log_ok (pollTick j s)"
proof (cases "j < length (flows s) \<and> processingDone (flows s ! j)")
  case True
  let ?s = "clearInterval (checkStatusInterval (flows s ! j)) s"
  have "flow_ok ?s i = flow_ok s i" for i
    using True by (intro flow_ok_cong) (simp_all add: finalizeTimers_clearInterval [OF tk])
  moreover have "request_ok ?s q = request_ok s q" for q
    by (rule request_ok_cong) simp
  ultimately have "log_ok ?s"
    using ok by (simp add: log_ok_def)
  with True show ?thesis by (simp add: pollTick_def)
next
  case False
  then show ?thesis
    using ok by (auto simp: pollTick_def isPost_def intro: log_ok_fetch)
qed

text \<open>The finalize timer of flow \<open>j\<close> fires.\<close>

lemma log_ok_finalize:
  assumes ok: "log_ok s" and tk: "timers_ok s" and e: "earliest (timers s) = Some t"
    and c: "cb t = Finalize j"
  shows "log_ok (finalizeStart j (s\<lparr> now := max (now s) (due t), timers := rearm t (timers s) \<rparr>))"
proof -
  let ?s1 = "s\<lparr> now := max (now s) (due t), timers := rearm t (timers s) \<rparr>"
  let ?s = "finalizeStart j ?s1"
  let ?f = "flows s ! j"
  let ?q = "(submittedAt ?f + 5000, ProcessPrompt (userPrompt ?f) (fileDataBase64 ?f), SubmitPost j)"
  from tk have d: "distinct (map tid (timers s))" by (simp add: timers_ok_def)
  from e have tin: "t \<in> set (timers s)" using earliest_Some by blast
  from tk tin c have j: "j < length (flows s)" and nd: "\<not> processingDone ?f"
    and tt: "tid t = Suc (checkStatusInterval ?f)" and pt: "period t = None"
    and du: "due t = submittedAt ?f + 5000" and nw: "now s \<le> due t"
    by (auto simp: timers_ok_def timer_ok_def)
  from ok have rq: "\<forall>q \<in> set (requests s). request_ok s q"
    and pd: "\<forall>p \<in> set (pending s). \<forall>j. snd p = SubmitPost j \<longrightarrow> j < length (flows s)"
    and fl: "\<forall>j < length (flows s). flow_ok s j"
    by (auto simp: log_ok_def)
  from fl j nd have before: "posts j s = []" "finals j s = []" "postsInFlight j s = []"
    "length (finalizeTimers j s) = 1"
    by (auto simp: flow_ok_def)
  have tm: "timers ?s = filter (\<lambda>u. tid u \<noteq> checkStatusInterval ?f)
                          (filter (\<lambda>u. tid u \<noteq> tid t) (timers s))"
    and flw: "flows ?s = (flows s)[j := ?f\<lparr> processingDone := True \<rparr>]"
    and req: "requests ?s = requests s @ [?q]"
    and pen: "pending ?s = pending s @ [(fresh s, SubmitPost j)]"
    using j pt nw du
    by (simp_all add: finalizeStart_def simulateAIResponse_def Let_def rearm_def max_def)
  have len: "length (flows ?s) = length (flows s)"
    by (simp add: flw)
  have same: "flows ?s ! i = flows s ! i" if "i \<noteq> j" for i
    using that by (simp add: flw)
  have this_one: "flows ?s ! j = ?f\<lparr> processingDone := True \<rparr>"
    using j by (simp add: flw)
  have fin_j: "finalizeTimers j ?s = []"
  proof -
    have "tid u = tid t" if "u \<in> set (timers s)" "cb u = Finalize j" for u
      using tk that tt by (auto simp: timers_ok_def timer_ok_def)
    then show ?thesis
      by (auto simp: finalizeTimers_def tm filter_empty_conv)
  qed
  have fin_other: "finalizeTimers i ?s = finalizeTimers i s" if "i \<noteq> j" for i
  proof -
    have "tid u \<noteq> checkStatusInterval ?f \<and> tid u \<noteq> tid t"
      if "u \<in> set (timers s)" "cb u = Finalize i" for u
    proof
      show "tid u \<noteq> checkStatusInterval ?f"
        using tk j that by (auto simp: timers_ok_def timer_ok_def)
      show "tid u \<noteq> tid t"
        using same_tid [OF d tin that(1)] c that(2) \<open>i \<noteq> j\<close> by auto
    qed
    then show ?thesis
      unfolding finalizeTimers_def tm filter_filter
      by (intro filter_cong) auto
  qed
  have "flow_ok ?s i" if i: "i < length (flows s)" for i
  proof (cases "i = j")
    case True
    have "posts j ?s = [?q]"
      using before by (simp add: posts_def req)
    moreover have "length (postsInFlight j ?s) + length (finals j ?s) = 1"
      using before by (simp add: postsInFlight_def finals_def req pen)
    ultimately show ?thesis
      using True fin_j by (simp add: flow_ok_def this_one)
  next
    case False
    have "posts i ?s = posts i s" "finals i ?s = finals i s"
      "postsInFlight i ?s = postsInFlight i s"
      using False by (simp_all add: posts_def finals_def postsInFlight_def req pen)
    then have "flow_ok ?s i = flow_ok s i"
      using False by (simp add: flow_ok_def same fin_other)
    with fl i show ?thesis by simp
  qed
  moreover have "\<forall>q \<in> set (requests ?s). request_ok ?s q"
  proof -
    have "request_ok ?s q = request_ok s q" for q
      by (rule request_ok_cong) (rule len)
    moreover have "request_ok ?s ?q"
      using j by (simp add: request_ok_def len)
    ultimately show ?thesis using rq by (auto simp: req)
  qed
  moreover have "\<forall>p \<in> set (pending ?s). \<forall>i. snd p = SubmitPost i \<longrightarrow> i < length (flows ?s)"
    using pd j by (auto simp: pen len)
  ultimately show ?thesis
    unfolding log_ok_def len by blast
qed

text \<open>The POST of flow \<open>j\<close> settles, and the final status fetch is sent.\<close>

lemma log_ok_submit_settled:
  assumes ok: "log_ok s" and m: "map_of (pending s) i = Some (SubmitPost j)"
  shows "log_ok (fetch CheckStatus (FinalStatus j)
           (simulateAIResponseResume v r (s\<lparr> pending := remove1 (i, SubmitPost j) (pending s) \<rparr>)))"
proof -
  let ?s = "fetch CheckStatus (FinalStatus j)
           (simulateAIResponseResume v r (s\<lparr> pending := remove1 (i, SubmitPost j) (pending s) \<rparr>))"
  from m have mem: "(i, SubmitPost j) \<in> set (pending s)" by (rule map_of_SomeD)
  from ok have rq: "\<forall>q \<in> set (requests s). request_ok s q"
    and pd: "\<forall>p \<in> set (pending s). \<forall>j. snd p = SubmitPost j \<longrightarrow> j < length (flows s)"
    and fl: "\<forall>j < length (flows s). flow_ok s j"
    by (auto simp: log_ok_def)
  from pd mem have j: "j < length (flows s)" by auto
  from mem have inflight: "postsInFlight j s \<noteq> []"
    by (force simp: postsInFlight_def filter_empty_conv)
  with fl j have dn: "processingDone (flows s ! j)"
    and sum: "length (postsInFlight j s) + length (finals j s) = 1"
    by (auto simp: flow_ok_def split: if_splits)
  have req: "requests ?s = requests s @ [(now s, CheckStatus, FinalStatus j)]"
    and pen: "pending ?s = remove1 (i, SubmitPost j) (pending s) @ [(Suc (fresh s), FinalStatus j)]"
    and flw: "flows ?s = flows s" and tm: "timers ?s = timers s"
    by simp_all
  have dec: "Suc (length (postsInFlight j ?s)) = length (postsInFlight j s)"
    using length_filter_remove1 [OF mem, of "\<lambda>p. snd p = SubmitPost j"]
    by (simp add: postsInFlight_def pen)
  have "flow_ok ?s k" if k: "k < length (flows s)" for k
  proof (cases "k = j")
    case True
    have "posts j ?s = posts j s" "finalizeTimers j ?s = finalizeTimers j s"
      by (simp_all add: posts_def finalizeTimers_def req tm)
    moreover have "length (postsInFlight j ?s) + length (finals j ?s) = 1"
    proof -
      have "length (finals j ?s) = Suc (length (finals j s))"
        by (simp add: finals_def req)
      with dec sum show ?thesis by linarith
    qed
    ultimately show ?thesis
      using True dn fl j by (simp add: flow_ok_def flw)
  next
    case False
    have "postsInFlight k ?s = postsInFlight k s"
      using False by (simp add: postsInFlight_def pen filter_remove1_other)
    moreover have "posts k ?s = posts k s" "finals k ?s = finals k s"
      "finalizeTimers k ?s = finalizeTimers k s"
      using False by (simp_all add: posts_def finals_def finalizeTimers_def req tm)
    ultimately have "flow_ok ?s k = flow_ok s k"
      by (simp add: flow_ok_def flw)
    with fl k show ?thesis by simp
  qed
  moreover have "\<forall>q \<in> set (requests ?s). request_ok ?s q"
  proof -
    have "request_ok ?s q = request_ok s q" for q
      by (rule request_ok_cong) (simp add: flw)
    moreover have "request_ok ?s (now s, CheckStatus, FinalStatus j)"
      using j by (simp add: request_ok_def flw isPost_def)
    ultimately show ?thesis using rq by (auto simp: req)
  qed
  moreover have "\<forall>p \<in> set (pending ?s). \<forall>k. snd p = SubmitPost k \<longrightarrow> k < length (flows ?s)"
    using pd by (auto simp: pen flw dest: notin_set_remove1)
  ultimately show ?thesis
    unfolding log_ok_def flw by blast
qed

lemma log_ok_fire:
  assumes ok: "log_ok s" and tk: "timers_ok s"
  shows "log_ok (fire v s)"
proof (cases "earliest (timers s)")
  case None
  then show ?thesis using ok by (simp add: fire_def)
next
  case (Some t)
  let ?s = "s\<lparr> now := max (now s) (due t), timers := rearm t (timers s) \<rparr>"
  have fire: "fire v s = runCallback v (cb t) ?s"
    using Some by (simp add: fire_def)
  have tk1: "timers_ok ?s"
    using tk Some by (rule timers_ok_tick)
  show ?thesis
  proof (cases "cb t")
    case (PollTick j)
    then have "log_ok ?s" using ok tk Some by (intro log_ok_tick) simp_all
    then show ?thesis
      using fire PollTick tk1 by (simp add: runCallback_def log_ok_pollTick)
  next
    case (Finalize j)
    then show ?thesis
      using fire log_ok_finalize [OF ok tk Some Finalize] by (simp add: runCallback_def)
  next
    case DownloadDone
    then have "log_ok ?s" using ok tk Some by (intro log_ok_tick) simp_all
    then have "log_ok (?s\<lparr> processingStatusArea := Downloaded \<rparr>)"
      by (rule log_ok_frame) simp_all
    then show ?thesis
      using fire DownloadDone
      by (cases v) (simp_all add: runCallback_def downloadDone_def Let_def log_ok_setTimeout)
  next
    case ClearStatus
    then have "log_ok ?s" using ok tk Some by (intro log_ok_tick) simp_all
    then have "log_ok (?s\<lparr> processingStatusArea := NoStatus \<rparr>)"
      by (rule log_ok_frame) simp_all
    then show ?thesis
      using fire ClearStatus by (simp add: runCallback_def)
  qed
qed

lemma log_ok_respond:
  assumes ok: "log_ok s"
  shows "log_ok (respond v i r s)"
proof (cases "map_of (pending s) i")
  case None
  then show ?thesis using ok by (simp add: respond_def)
next
  case (Some k)
  let ?s = "s\<lparr> pending := remove1 (i, k) (pending s) \<rparr>"
  have resp: "respond v i r s = resume v k r ?s"
    using Some by (simp add: respond_def)
  show ?thesis
  proof (cases k)
    case (PollStatus j)
    then have "log_ok ?s" using ok by (intro log_ok_settle) simp_all
    then have "log_ok (pollResume r ?s)" by (rule log_ok_frame) simp_all
    then show ?thesis using resp PollStatus by (simp add: resume_def)
  next
    case (SubmitPost j)
    then show ?thesis
      using resp log_ok_submit_settled [OF ok, of i j v r] Some by (simp add: resume_def)
  next
    case (FinalStatus j)
    then have "log_ok ?s" using ok by (intro log_ok_settle) simp_all
    then have "log_ok (finalResume r ?s)" by (rule log_ok_frame) simp_all
    then show ?thesis using resp FinalStatus by (simp add: resume_def)
  next
    case DownloadStatus
    then have "log_ok ?s" using ok by (intro log_ok_settle) simp_all
    then have "log_ok (downloadStatusResume r ?s)"
      by (cases r) (auto simp: downloadStatusResume_def isPost_def
          intro: log_ok_alert log_ok_fetch split: option.splits)
    then show ?thesis using resp DownloadStatus by (simp add: resume_def)
  next
    case DownloadProbe
    then have a: "log_ok ?s" using ok by (intro log_ok_settle) simp_all
    then have "log_ok (?s\<lparr> processingStatusArea := Downloading,
                          navigations := navigations ?s @ [now ?s] \<rparr>)"
      by (rule log_ok_frame) simp_all
    with a have "log_ok (downloadProbeResume r ?s)"
      by (cases r) (auto simp: downloadProbeResume_def
          intro: log_ok_alert log_ok_setTimeout split: option.splits)
    then show ?thesis using resp DownloadProbe by (simp add: resume_def)
  qed
qed

lemma log_ok_step:
  assumes ok: "log_ok s" and tk: "timers_ok s"
  shows "log_ok (step v s e)"
proof (cases e)
  case (Input t)
  have "log_ok (s\<lparr> chatInput := t \<rparr>)" using ok by (rule log_ok_frame) simp_all
  with Input show ?thesis by simp
next
  case Send
  let ?s = "(createMessageElement (UserText (trim (chatInput s)))
                   (s\<lparr> welcomeDisplay := False \<rparr>))\<lparr> chatInput := [] \<rparr>"
  have "log_ok ?s" using ok by (rule log_ok_frame) simp_all
  moreover have "timers_ok ?s" using tk by (rule timers_ok_frame) simp_all
  ultimately show ?thesis
    using Send ok by (simp add: sendMessage_def Let_def log_ok_startProcessingFlow)
next
  case NewChat
  have "log_ok (newChat s)" using ok by (rule log_ok_frame) simp_all
  with NewChat show ?thesis by simp
next
  case Download
  then show ?thesis using ok by (simp add: downloadClick_def log_ok_fetch isPost_def)
next
  case (FileChange fo)
  have "log_ok (handleFileSelection v fo s)" using ok by (rule log_ok_frame) simp_all
  with FileChange show ?thesis by simp
next
  case (FileLoad i url)
  show ?thesis
  proof (cases "map_of (readers s) i")
    case None
    then show ?thesis using FileLoad ok by (simp add: readerOnload_def)
  next
    case (Some f)
    let ?s = "createMessageElement (FileUpload (name f) (fsize f))
               (s\<lparr> readers := remove1 (i, f) (readers s) \<rparr>)"
    have "log_ok ?s" using ok by (rule log_ok_frame) simp_all
    moreover have "timers_ok ?s" using tk by (rule timers_ok_frame) simp_all
    ultimately show ?thesis
      using FileLoad Some by (simp add: readerOnload_def log_ok_startProcessingFlow)
  qed
next
  case (FileError i)
  have "log_ok (readerOnerror v i s)" using ok by (rule log_ok_frame) simp_all
  with FileError show ?thesis by simp
next
  case Fire
  then show ?thesis using ok tk by (simp add: log_ok_fire)
next
  case (Wait d)
  have "log_ok (wait d s)" using ok by (rule log_ok_frame) simp_all
  with Wait show ?thesis by simp
next
  case (Respond i r)
  then show ?thesis using ok by (simp add: log_ok_respond)
qed

lemma invariants_run: "timers_ok s \<Longrightarrow> log_ok s \<Longrightarrow> timers_ok (run v s evs) \<and> log_ok (run v s evs)"
  by (induction evs arbitrary: s) (simp_all add: timers_ok_step log_ok_step)

lemma invariants_reachable: "timers_ok (run v init evs) \<and> log_ok (run v init evs)"
  by (rule invariants_run) (rule timers_ok_init, rule log_ok_init)

lemma finalizeTimers_single:
  assumes tk: "timers_ok s" and j: "j < length (flows s)"
    and one: "length (finalizeTimers j s) = 1"
  shows "finalizeTimers j s =
           [Timer (Suc (checkStatusInterval (flows s ! j))) (submittedAt (flows s ! j) + 5000)
              None (Finalize j)] \<and>
         now s \<le> submittedAt (flows s ! j) + 5000"
proof -
  from one obtain t where t: "finalizeTimers j s = [t]"
    by (cases "finalizeTimers j s") auto
  then have "t \<in> set (finalizeTimers j s)" by simp
  then have tin: "t \<in> set (timers s)" and c: "cb t = Finalize j"
    by (auto simp: finalizeTimers_def)
  with tk have "tid t = Suc (checkStatusInterval (flows s ! j))"
    "due t = submittedAt (flows s ! j) + 5000" "period t = None" "now s \<le> due t"
    by (auto simp: timers_ok_def timer_ok_def)
  with c t show ?thesis by (cases t) auto
qed

lemma fire_finalize:
  assumes tk: "timers_ok s" and e: "earliest (timers s) = Some t" and c: "cb t = Finalize j"
  shows "processingDone (flows (step v s Fire) ! j) \<and>
         now (step v s Fire) = submittedAt (flows s ! j) + 5000"
proof -
  from e have tin: "t \<in> set (timers s)" using earliest_Some by blast
  from tk tin c have j: "j < length (flows s)"
    and du: "due t = submittedAt (flows s ! j) + 5000" and nw: "now s \<le> due t"
    by (auto simp: timers_ok_def timer_ok_def)
  then show ?thesis
    using e c by (simp add: fire_def runCallback_def finalizeStart_def simulateAIResponse_def
        Let_def max_def)
qed

subsection \<open>One finalize fetch per submission\<close>

text \<open>
  C1. Whatever events follow a submission (poll ticks and their answers, other clicks,
  a reset), its flow sends exactly one POST to \<^verbatim>\<open>process_prompt\<close>, with the flow's own
  payload, at the submission time plus 5000 ms. Until then the finalize timer stays armed
  for that time, the clock cannot pass it, and firing it sends the POST; afterwards the
  timer is gone, and the POST is either in flight or has settled and has been followed by
  exactly one final \<^verbatim>\<open>check_status\<close> fetch. Every POST in the log belongs to a flow.
\<close>

theorem finalize_fetch_exactly_once:
  assumes j: "j < length (flows (run v init evs))"
  shows "(if processingDone (flows (run v init evs) ! j)
          then posts j (run v init evs) =
                 [(submittedAt (flows (run v init evs) ! j) + 5000,
                   ProcessPrompt (userPrompt (flows (run v init evs) ! j))
                     (fileDataBase64 (flows (run v init evs) ! j)),
                   SubmitPost j)] \<and>
               finalizeTimers j (run v init evs) = [] \<and>
               length (postsInFlight j (run v init evs)) + length (finals j (run v init evs)) = 1
          else posts j (run v init evs) = [] \<and> finals j (run v init evs) = [] \<and>
               postsInFlight j (run v init evs) = [] \<and>
               finalizeTimers j (run v init evs) =
                 [Timer (Suc (checkStatusInterval (flows (run v init evs) ! j)))
                    (submittedAt (flows (run v init evs) ! j) + 5000) None (Finalize j)] \<and>
               now (run v init evs) \<le> submittedAt (flows (run v init evs) ! j) + 5000) \<and>
         (\<forall>t. earliest (timers (run v init evs)) = Some t \<and> cb t = Finalize j \<longrightarrow>
              processingDone (flows (step v (run v init evs) Fire) ! j) \<and>
              now (step v (run v init evs) Fire) = submittedAt (flows (run v init evs) ! j) + 5000) \<and>
         (\<forall>q \<in> set (requests (run v init evs)).
              isPost (fst (snd q)) \<longrightarrow>
              (\<exists>k < length (flows (run v init evs)). snd (snd q) = SubmitPost k))"
proof -
  let ?s = "run v init evs"
  have tk: "timers_ok ?s" and lg: "log_ok ?s"
    using invariants_reachable by blast+
  from lg j have fl: "flow_ok ?s j"
    and rq: "\<forall>q \<in> set (requests ?s). request_ok ?s q"
    by (auto simp: log_ok_def)
  have posts_only: "\<exists>k < length (flows ?s). snd (snd q) = SubmitPost k"
    if "q \<in> set (requests ?s)" "isPost (fst (snd q))" for q
    using rq that by (cases "snd (snd q)") (auto simp: request_ok_def)
  show ?thesis
  proof (cases "processingDone (flows ?s ! j)")
    case True
    with fl show ?thesis
      using fire_finalize [OF tk] posts_only by (simp add: flow_ok_def)
  next
    case False
    with fl have "length (finalizeTimers j ?s) = 1" by (simp add: flow_ok_def)
    from finalizeTimers_single [OF tk j this] False fl show ?thesis
      using fire_finalize [OF tk] posts_only by (simp add: flow_ok_def)
  qed
qed

theorem finalize_fetch_exactly_once_witness:
  "0 < length (flows (run Part_000 init [Input ''hi'', Send, Fire, Fire, Fire])) \<and>
   processingDone (flows (run Part_000 init [Input ''hi'', Send, Fire, Fire, Fire]) ! 0) \<and>
   posts 0 (run Part_000 init [Input ''hi'', Send, Fire, Fire, Fire])
     = [(5000, ProcessPrompt (Some ''hi'') None, SubmitPost 0)] \<and>
   finalizeTimers 0 (run Part_000 init [Input ''hi'', Send, Fire, Fire, Fire]) = [] \<and>
   length (postsInFlight 0 (run Part_000 init [Input ''hi'', Send, Fire, Fire, Fire]))
     + length (finals 0 (run Part_000 init [Input ''hi'', Send, Fire, Fire, Fire])) = 1"
proof -
  let ?s = "run Part_000 init [Input ''hi'', Send, Fire, Fire, Fire]"
  have j: "0 < length (flows ?s)"
    by (simp only: after_finalize) simp
  have f: "processingDone (flows ?s ! 0)" "submittedAt (flows ?s ! 0) = 0"
    "userPrompt (flows ?s ! 0) = Some ''hi''" "fileDataBase64 (flows ?s ! 0) = None"
    by (simp_all only: after_finalize) simp_all
  from finalize_fetch_exactly_once [OF j, THEN conjunct1] f j show ?thesis
    by (simp only: if_True) simp
qed

subsection \<open>No poll tick once finalization has begun\<close>

text \<open>A closure, once created, stays at its index, and its flag is never cleared.\<close>

lemma done_startProcessingFlow:
  "j < length (flows s) \<Longrightarrow> processingDone (flows s ! j) \<Longrightarrow>
   j < length (flows (startProcessingFlow p f s)) \<and>
   processingDone (flows (startProcessingFlow p f s) ! j)"
  by (simp add: nth_append)

lemma done_finalizeStart:
  "j < length (flows s) \<Longrightarrow> processingDone (flows s ! j) \<Longrightarrow>
   j < length (flows (finalizeStart k s)) \<and> processingDone (flows (finalizeStart k s) ! j)"
  by (simp add: finalizeStart_def simulateAIResponse_def Let_def nth_list_update)

lemma flows_resume [simp]: "flows (resume v k r s) = flows s"
  by (cases k) (simp_all add: resume_def)

lemma flows_respond [simp]: "flows (respond v i r s) = flows s"
  by (simp add: respond_def split: option.splits)

lemma done_step:
  assumes "j < length (flows s)" "processingDone (flows s ! j)"
  shows "j < length (flows (step v s e)) \<and> processingDone (flows (step v s e) ! j)"
proof (cases e)
  case Send
  then show ?thesis
    using assms by (simp add: sendMessage_def Let_def nth_append)
next
  case (FileLoad i url)
  then show ?thesis
    using assms by (simp add: readerOnload_def nth_append split: option.splits)
next
  case Fire
  show ?thesis
  proof (cases "earliest (timers s)")
    case None
    with Fire assms show ?thesis by (simp add: fire_def)
  next
    case (Some t)
    let ?s = "s\<lparr> now := max (now s) (due t), timers := rearm t (timers s) \<rparr>"
    have "j < length (flows ?s)" "processingDone (flows ?s ! j)"
      using assms by simp_all
    then have "j < length (flows (runCallback v (cb t) ?s)) \<and>
        processingDone (flows (runCallback v (cb t) ?s) ! j)"
      by (cases "cb t") (simp_all add: runCallback_def done_finalizeStart)
    with Fire Some show ?thesis by (simp add: fire_def)
  qed
qed (use assms in \<open>simp_all add: downloadClick_def\<close>)

lemma polls_resume: "polls j (resume v k r s) = polls j s"
proof (cases k)
  case DownloadStatus
  then show ?thesis
    by (cases r) (simp_all add: polls_def resume_def downloadStatusResume_def split: option.splits)
qed (simp_all add: polls_def resume_def)

lemma polls_step:
  assumes tk: "timers_ok s" and j: "j < length (flows s)" and dn: "processingDone (flows s ! j)"
  shows "polls j (step v s e) = polls j s"
proof (cases e)
  case Download
  then show ?thesis by (simp add: polls_def downloadClick_def)
next
  case Fire
  show ?thesis
  proof (cases "earliest (timers s)")
    case None
    with Fire show ?thesis by (simp add: fire_def)
  next
    case (Some t)
    then have tin: "t \<in> set (timers s)" using earliest_Some by blast
    let ?s = "s\<lparr> now := max (now s) (due t), timers := rearm t (timers s) \<rparr>"
    have "polls j (runCallback v (cb t) ?s) = polls j s"
    proof (cases "cb t")
      case (PollTick k)
      with tk tin have "\<not> processingDone (flows s ! k)"
        by (auto simp: timers_ok_def timer_ok_def)
      with dn have "k \<noteq> j" by auto
      with PollTick show ?thesis
        by (simp add: runCallback_def pollTick_def polls_def)
    next
      case (Finalize k)
      then show ?thesis
        by (simp add: runCallback_def finalizeStart_def simulateAIResponse_def Let_def polls_def)
    qed (simp_all add: runCallback_def polls_def)
    with Fire Some show ?thesis by (simp add: fire_def)
  qed
next
  case (Respond i r)
  then show ?thesis
    by (simp add: respond_def polls_resume split: option.splits) (simp add: polls_def)
qed (simp_all add: polls_def)

lemma no_poll_once_done:
  assumes "timers_ok s" "j < length (flows s)" "processingDone (flows s ! j)"
  shows "polls j (run v s evs) = polls j s \<and> j < length (flows (run v s evs)) \<and>
         processingDone (flows (run v s evs) ! j)"
  using assms
proof (induction evs arbitrary: s)
  case Nil
  then show ?case by simp
next
  case (Cons e evs)
  from Cons.prems have "timers_ok (step v s e)"
    and "j < length (flows (step v s e))" and "processingDone (flows (step v s e) ! j)"
    and "polls j (step v s e) = polls j s"
    by (simp_all add: timers_ok_step done_step polls_step)
  with Cons.IH [of "step v s e"] show ?case by simp
qed

text \<open>
  C2, amended. Once the finalize callback of a flow has started, the flow's poll interval
  is gone (it is cancelled in the same turn of the event loop, before the callback's
  first \<^verbatim>\<open>await\<close>) and stays gone: whatever happens later, no further poll tick fires
  and no further poll fetch of \<^verbatim>\<open>check_status\<close> is sent for that flow. The answer to
  a poll fetch that was already in flight is not discarded.
\<close>

theorem no_poll_tick_after_finalize:
  assumes "j < length (flows (run v init evs))" "processingDone (flows (run v init evs) ! j)"
  shows "pollTimers j (run v init evs) = [] \<and>
         pollTimers j (run v init (evs @ later)) = [] \<and>
         polls j (run v init (evs @ later)) = polls j (run v init evs)"
proof -
  have empty: "pollTimers j s = []"
    if "timers_ok s" "j < length (flows s)" "processingDone (flows s ! j)" for s
    using that by (auto simp: pollTimers_def filter_empty_conv timers_ok_def timer_ok_def)
  have tk: "timers_ok (run v init evs)" "timers_ok (run v init (evs @ later))"
    using invariants_reachable by blast+
  have after: "polls j (run v init (evs @ later)) = polls j (run v init evs)"
    "j < length (flows (run v init (evs @ later)))"
    "processingDone (flows (run v init (evs @ later)) ! j)"
    using no_poll_once_done [OF tk(1) assms, of v later] by (simp_all add: run_def)
  from empty [OF tk(1) assms] empty [OF tk(2) after(2,3)] after(1) show ?thesis
    by simp
qed

theorem no_poll_tick_after_finalize_witness:
  "0 < length (flows (run Part_000 init [Input ''hi'', Send, Fire, Fire, Fire])) \<and>
   processingDone (flows (run Part_000 init [Input ''hi'', Send, Fire, Fire, Fire]) ! 0) \<and>
   pollTimers 0 (run Part_000 init [Input ''hi'', Send, Fire, Fire, Fire]) = [] \<and>
   polls 0 (run Part_000 init ([Input ''hi'', Send, Fire, Fire, Fire] @
       [Fire, Respond 7 (Http True (Some [(''status'', JString ''processing'')])), Wait 3000, Fire]))
     = [(2000, CheckStatus, PollStatus 0), (4000, CheckStatus, PollStatus 0)]"
proof -
  let ?s = "run Part_000 init [Input ''hi'', Send, Fire, Fire, Fire]"
  have j: "0 < length (flows ?s)"
    by (simp only: after_finalize) simp
  have d: "processingDone (flows ?s ! 0)"
    by (simp only: after_finalize) simp
  have p: "polls 0 ?s = [(2000, CheckStatus, PollStatus 0), (4000, CheckStatus, PollStatus 0)]"
    by (simp only: after_finalize polls_def) simp
  from no_poll_tick_after_finalize [OF j d, of "[Fire,
      Respond 7 (Http True (Some [(''status'', JString ''processing'')])), Wait 3000, Fire]"]
  show ?thesis
    using j d p by (simp only:)
qed

subsection \<open>The download button\<close>

text \<open>
  C4, as stated, fails when two submissions overlap: the first job reconciles
  \<^verbatim>\<open>completed\<close> and shows the button, the second reconciles \<^verbatim>\<open>failed\<close>, and the
  button is still shown.
\<close>

theorem overlapping_jobs_download_after_failed:
  "downloadOutputBtn (run Part_000 init
     [Input ''a'', Send, Input ''b'', Send, Fire, Fire, Fire, Fire, Fire, Fire,
      Respond 15 (Http True (Some [(''ai_response_text'', JString ''one'')])),
      Respond 18 (Http True (Some [(''status'', JString ''completed'')])),
      Respond 16 (Http True (Some [(''ai_response_text'', JString ''two'')])),
      Respond 20 (Http True (Some [(''status'', JString ''failed'')]))]) \<and>
   lastReconciled (run Part_000 init
     [Input ''a'', Send, Input ''b'', Send, Fire, Fire, Fire, Fire, Fire, Fire,
      Respond 15 (Http True (Some [(''ai_response_text'', JString ''one'')])),
      Respond 18 (Http True (Some [(''status'', JString ''completed'')])),
      Respond 16 (Http True (Some [(''ai_response_text'', JString ''two'')])),
      Respond 20 (Http True (Some [(''status'', JString ''failed'')]))])
     = Some [(''status'', JString ''failed'')]"
proof -
  have a: "trim ''a'' = ''a''" "trim ''b'' = ''b''"
    by code_simp+
  show ?thesis
    by (simp add: handler_defs init_def a)
qed

lemma download_ok_init: "download_ok init"
  by (simp add: download_ok_def activeJobs_def reconciledCompleted_def init_def)

lemma download_ok_quiet:
  assumes "download_ok s" "activeJobs s' \<le> activeJobs s"
    "downloadOutputBtn s' = downloadOutputBtn s" "lastReconciled s' = lastReconciled s"
  shows "download_ok s'"
  using assms by (auto simp: download_ok_def reconciledCompleted_def)

lemma activeJobs_cong:
  "timers s' = timers s \<Longrightarrow> pending s' = pending s \<Longrightarrow> activeJobs s' = activeJobs s"
  by (simp add: activeJobs_def)

lemma length_filter_filter_le:
  "length (filter P (filter Q xs)) \<le> length (filter P xs)"
  by (induction xs) auto

lemma length_filter_filter_less:
  "x \<in> set xs \<Longrightarrow> P x \<Longrightarrow> \<not> Q x \<Longrightarrow>
   length (filter P (filter Q xs)) < length (filter P xs)"
proof (induction xs)
  case Nil
  then show ?case by simp
next
  case (Cons a xs)
  show ?case
  proof (cases "a = x")
    case True
    with Cons.prems show ?thesis
      using length_filter_filter_le [of P Q xs] by simp
  next
    case False
    with Cons show ?thesis by auto
  qed
qed

lemma isFinalize_rearm_le:
  "length (filter isFinalize (rearm t ts)) \<le> length (filter isFinalize ts)"
proof (cases "period t")
  case None
  then show ?thesis
    using length_filter_filter_le [of isFinalize "\<lambda>u. tid u \<noteq> tid t" ts]
    by (simp add: rearm_def)
next
  case (Some p)
  have "filter isFinalize
          (map (\<lambda>u. if tid u = tid t then Timer (tid u) (due u + p) (period u) (cb u) else u) ts)
        = map (\<lambda>u. if tid u = tid t then Timer (tid u) (due u + p) (period u) (cb u) else u)
            (filter isFinalize ts)"
    by (induction ts) (auto simp: isFinalize_def)
  with Some show ?thesis by (simp add: rearm_def)
qed

lemma isFinalize_rearm_less:
  assumes "t \<in> set ts" "isFinalize t" "period t = None"
  shows "length (filter isFinalize (rearm t ts)) < length (filter isFinalize ts)"
  using assms length_filter_filter_less [of t ts isFinalize "\<lambda>u. tid u \<noteq> tid t"]
  by (simp add: rearm_def)

lemma activeJobs_fetch:
  "activeJobs (fetch ep k s) = activeJobs s + (if isFinalizing (0, k) then 1 else 0)"
  by (simp add: activeJobs_def isFinalizing_def)

lemma activeJobs_setTimeout:
  "\<not> isFinalize (Timer 0 0 None c) \<Longrightarrow> activeJobs (setTimeout c d s) = activeJobs s"
  by (simp add: activeJobs_def isFinalize_def)

lemma activeJobs_clearInterval: "activeJobs (clearInterval i s) \<le> activeJobs s"
  using length_filter_filter_le [of isFinalize "\<lambda>t. tid t \<noteq> i" "timers s"]
  by (simp add: activeJobs_def)

lemma activeJobs_pollTick: "activeJobs (pollTick j s) \<le> activeJobs s"
  by (simp add: pollTick_def activeJobs_clearInterval activeJobs_fetch isFinalizing_def)

lemma activeJobs_finalizeStart:
  "activeJobs (finalizeStart j s) \<le> Suc (activeJobs s)"
proof (cases "j < length (flows s)")
  case True
  have "length (filter isFinalize (filter (\<lambda>t. tid t \<noteq> checkStatusInterval (flows s ! j)) (timers s)))
      \<le> length (filter isFinalize (timers s))"
    by (rule length_filter_filter_le)
  with True show ?thesis
    by (simp add: finalizeStart_def simulateAIResponse_def Let_def activeJobs_def isFinalizing_def)
qed (simp add: finalizeStart_def)

lemma activeJobs_fire:
  assumes tk: "timers_ok s"
  shows "activeJobs (fire v s) \<le> activeJobs s"
proof (cases "earliest (timers s)")
  case None
  then show ?thesis by (simp add: fire_def)
next
  case (Some t)
  let ?s = "s\<lparr> now := max (now s) (due t), timers := rearm t (timers s) \<rparr>"
  from Some have tin: "t \<in> set (timers s)" using earliest_Some by blast
  have le: "activeJobs ?s \<le> activeJobs s"
    by (simp add: activeJobs_def isFinalize_rearm_le)
  have "activeJobs (runCallback v (cb t) ?s) \<le> activeJobs s"
  proof (cases "cb t")
    case (PollTick j)
    with le activeJobs_pollTick [of j ?s] show ?thesis
      by (simp add: runCallback_def)
  next
    case (Finalize j)
    with tk tin have "period t = None" "isFinalize t"
      by (auto simp: timers_ok_def timer_ok_def isFinalize_def)
    with tin have "activeJobs ?s < activeJobs s"
      by (simp add: activeJobs_def isFinalize_rearm_less)
    with Finalize activeJobs_finalizeStart [of j ?s] show ?thesis
      by (simp add: runCallback_def)
  next
    case DownloadDone
    have "activeJobs (downloadDone v ?s) = activeJobs ?s"
      by (cases v) (simp_all add: downloadDone_def Let_def activeJobs_def isFinalize_def)
    with DownloadDone le show ?thesis by (simp add: runCallback_def)
  next
    case ClearStatus
    with le show ?thesis by (simp add: runCallback_def activeJobs_def)
  qed
  with Some show ?thesis by (simp add: fire_def)
qed

lemma download_ok_startProcessingFlow:
  assumes "activeJobs s = 0"
  shows "download_ok (startProcessingFlow p f s)"
  using assms
  by (simp add: download_ok_def activeJobs_def isFinalize_def reconciledCompleted_def)

lemma download_ok_respond:
  assumes ok: "download_ok s"
  shows "download_ok (respond v i r s)"
proof (cases "map_of (pending s) i")
  case None
  then show ?thesis using ok by (simp add: respond_def)
next
  case (Some k)
  let ?s = "s\<lparr> pending := remove1 (i, k) (pending s) \<rparr>"
  have resp: "respond v i r s = resume v k r ?s"
    using Some by (simp add: respond_def)
  from Some have mem: "(i, k) \<in> set (pending s)" by (rule map_of_SomeD)
  have settle: "activeJobs ?s + (if isFinalizing (i, k) then 1 else 0) = activeJobs s"
  proof (cases "isFinalizing (i, k)")
    case True
    with length_filter_remove1 [OF mem, of isFinalizing] show ?thesis
      by (simp add: activeJobs_def)
  next
    case False
    then show ?thesis by (simp add: activeJobs_def filter_remove1_other)
  qed
  show ?thesis
  proof (cases k)
    case (PollStatus j)
    with settle have "activeJobs (pollResume r ?s) \<le> activeJobs s"
      by (simp add: activeJobs_def isFinalizing_def)
    with ok have "download_ok (pollResume r ?s)"
      by (rule download_ok_quiet) simp_all
    with resp PollStatus show ?thesis by (simp add: resume_def)
  next
    case (SubmitPost j)
    let ?t = "fetch CheckStatus (FinalStatus j) (simulateAIResponseResume v r ?s)"
    have "activeJobs ?t = Suc (activeJobs ?s)"
      by (simp add: activeJobs_def isFinalizing_def)
    with settle SubmitPost have "activeJobs ?t \<le> activeJobs s"
      by (simp add: isFinalizing_def)
    with ok have "download_ok ?t"
      by (rule download_ok_quiet) simp_all
    with resp SubmitPost show ?thesis by (simp add: resume_def)
  next
    case (FinalStatus j)
    with settle have one: "Suc (activeJobs ?s) = activeJobs s"
      by (simp add: isFinalizing_def)
    with ok have zero: "activeJobs ?s = 0" and hidden: "\<not> downloadOutputBtn s"
      and none: "lastReconciled s = None"
      by (auto simp: download_ok_def)
    have same: "activeJobs (finalResume r ?s) = activeJobs ?s"
      by (simp add: activeJobs_def)
    have "download_ok (finalResume r ?s)"
      unfolding download_ok_def same zero
      using hidden none
      by (cases r) (auto simp: finalResume_def finalStatusUpdate_def reconciledCompleted_def
          split: option.splits)
    with resp FinalStatus show ?thesis by (simp add: resume_def)
  next
    case DownloadStatus
    with settle have "activeJobs (downloadStatusResume r ?s) \<le> activeJobs s"
      by (cases r) (auto simp: downloadStatusResume_def activeJobs_def isFinalizing_def
          split: option.splits)
    with ok have "download_ok (downloadStatusResume r ?s)"
      by (rule download_ok_quiet) simp_all
    with resp DownloadStatus show ?thesis by (simp add: resume_def)
  next
    case DownloadProbe
    with settle have "activeJobs (downloadProbeResume r ?s) \<le> activeJobs s"
      by (cases r) (auto simp: downloadProbeResume_def activeJobs_def isFinalizing_def
          isFinalize_def split: option.splits)
    with ok have "download_ok (downloadProbeResume r ?s)"
      by (rule download_ok_quiet) simp_all
    with resp DownloadProbe show ?thesis by (simp add: resume_def)
  qed
qed

lemma download_ok_step:
  assumes ok: "download_ok s" and tk: "timers_ok s"
    and one: "startsFlow s e \<longrightarrow> activeJobs s = 0"
  shows "download_ok (step v s e)"
proof (cases e)
  case (Input t)
  have "download_ok (s\<lparr> chatInput := t \<rparr>)"
    using ok by (rule download_ok_quiet) (simp_all add: activeJobs_def)
  with Input show ?thesis by simp
next
  case Send
  show ?thesis
  proof (cases "trim (chatInput s) = []")
    case True
    with Send ok show ?thesis by (simp add: sendMessage_def)
  next
    case False
    with Send one have "activeJobs s = 0" by (simp add: startsFlow_def)
    then have "activeJobs ((createMessageElement (UserText (trim (chatInput s)))
                   (s\<lparr> welcomeDisplay := False \<rparr>))\<lparr> chatInput := [] \<rparr>) = 0"
      by (simp add: activeJobs_def)
    with Send False show ?thesis
      by (simp add: sendMessage_def Let_def download_ok_startProcessingFlow)
  qed
next
  case NewChat
  have "activeJobs (newChat s) = activeJobs s" by (simp add: activeJobs_def)
  with ok NewChat show ?thesis
    by (simp add: download_ok_def newChat_def reconciledCompleted_def)
next
  case Download
  have "download_ok (downloadClick s)"
    using ok by (rule download_ok_quiet)
      (simp_all add: downloadClick_def activeJobs_fetch isFinalizing_def)
  with Download show ?thesis by simp
next
  case (FileChange fo)
  have "download_ok (handleFileSelection v fo s)"
    using ok by (rule download_ok_quiet) (simp_all add: activeJobs_def)
  with FileChange show ?thesis by simp
next
  case (FileLoad i url)
  show ?thesis
  proof (cases "map_of (readers s) i")
    case None
    with FileLoad ok show ?thesis by (simp add: readerOnload_def)
  next
    case (Some f)
    with FileLoad one have "activeJobs s = 0" by (simp add: startsFlow_def)
    then have "activeJobs (createMessageElement (FileUpload (name f) (fsize f))
               (s\<lparr> readers := remove1 (i, f) (readers s) \<rparr>)) = 0"
      by (simp add: activeJobs_def)
    with FileLoad Some show ?thesis
      by (simp add: readerOnload_def download_ok_startProcessingFlow)
  qed
next
  case (FileError i)
  have "download_ok (readerOnerror v i s)"
    using ok by (rule download_ok_quiet) (simp_all add: activeJobs_def)
  with FileError show ?thesis by simp
next
  case Fire
  have "download_ok (fire v s)"
    using ok by (rule download_ok_quiet) (simp_all add: activeJobs_fire [OF tk])
  with Fire show ?thesis by simp
next
  case (Wait d)
  have "download_ok (wait d s)"
    using ok by (rule download_ok_quiet) (simp_all add: activeJobs_def)
  with Wait show ?thesis by simp
next
  case (Respond i r)
  with ok show ?thesis by (simp add: download_ok_respond)
qed

lemma download_ok_run:
  "download_ok s \<Longrightarrow> timers_ok s \<Longrightarrow> oneAtATime v s evs \<Longrightarrow> download_ok (run v s evs)"
proof (induction evs arbitrary: s)
  case Nil
  then show ?case by simp
next
  case (Cons e evs)
  from Cons.prems have "download_ok (step v s e)" "timers_ok (step v s e)"
    "oneAtATime v (step v s e) evs"
    by (simp_all add: download_ok_step timers_ok_step)
  with Cons.IH show ?case by simp
qed

text \<open>
  C4, amended. In every run that submits one job at a time, the download button is
  shown if and only if the last reconciled backend status is \<^verbatim>\<open>completed\<close>, where a
  new submission and a reset forget what was reconciled; so it is never shown after a
  reconciliation read \<^verbatim>\<open>failed\<close> or an unknown status. A reset hides the button, and
  so does the start of a submission.
\<close>

theorem download_enabled_iff_completed:
  assumes "oneAtATime v init evs"
  shows "(downloadOutputBtn (run v init evs) \<longleftrightarrow> reconciledCompleted (run v init evs)) \<and>
         \<not> downloadOutputBtn (step v (run v init evs) NewChat) \<and>
         (startsFlow (run v init evs) e \<longrightarrow> \<not> downloadOutputBtn (step v (run v init evs) e))"
proof -
  have "download_ok (run v init evs)"
    using download_ok_init timers_ok_init assms by (rule download_ok_run)
  then have "downloadOutputBtn (run v init evs) \<longleftrightarrow> reconciledCompleted (run v init evs)"
    by (simp add: download_ok_def)
  moreover have "\<not> downloadOutputBtn (step v s NewChat)" for s
    by (simp add: newChat_def)
  moreover have "\<not> downloadOutputBtn (step v s e)" if "startsFlow s e" for s
    using that
    by (cases e) (auto simp: startsFlow_def sendMessage_def readerOnload_def Let_def)
  ultimately show ?thesis by blast
qed

theorem download_enabled_iff_completed_witness:
  "oneAtATime Part_000 init
     [Input ''hi'', Send, Fire, Fire, Fire,
      Respond 8 (Http True (Some [(''ai_response_text'', JString ''ok'')])),
      Respond 10 (Http True (Some [(''status'', JString ''completed'')])),
      Input ''again''] \<and>
   downloadOutputBtn (run Part_000 init
     [Input ''hi'', Send, Fire, Fire, Fire,
      Respond 8 (Http True (Some [(''ai_response_text'', JString ''ok'')])),
      Respond 10 (Http True (Some [(''status'', JString ''completed'')])),
      Input ''again'']) \<and>
   reconciledCompleted (run Part_000 init
     [Input ''hi'', Send, Fire, Fire, Fire,
      Respond 8 (Http True (Some [(''ai_response_text'', JString ''ok'')])),
      Respond 10 (Http True (Some [(''status'', JString ''completed'')])),
      Input ''again'']) \<and>
   startsFlow (run Part_000 init
     [Input ''hi'', Send, Fire, Fire, Fire,
      Respond 8 (Http True (Some [(''ai_response_text'', JString ''ok'')])),
      Respond 10 (Http True (Some [(''status'', JString ''completed'')])),
      Input ''again'']) Send \<and>
   \<not> downloadOutputBtn (step Part_000 (run Part_000 init
     [Input ''hi'', Send, Fire, Fire, Fire,
      Respond 8 (Http True (Some [(''ai_response_text'', JString ''ok'')])),
      Respond 10 (Http True (Some [(''status'', JString ''completed'')])),
      Input ''again'']) Send)"
proof -
  let ?evs = "[Input ''hi'', Send, Fire, Fire, Fire,
      Respond 8 (Http True (Some [(''ai_response_text'', JString ''ok'')])),
      Respond 10 (Http True (Some [(''status'', JString ''completed'')])),
      Input ''again'']"
  have t: "trim ''again'' = ''again''"
    by code_simp
  have one: "oneAtATime Part_000 init ?evs"
    by (simp add: handler_defs init_def startsFlow_def activeJobs_def isFinalize_def
        isFinalizing_def)
  have btn: "downloadOutputBtn (run Part_000 init ?evs)"
    by (simp add: handler_defs init_def)
  have st: "startsFlow (run Part_000 init ?evs) Send"
    by (simp add: handler_defs init_def startsFlow_def t)
  from download_enabled_iff_completed [OF one, of Send] one btn st show ?thesis
    by (simp only:) simp
qed

end
